theory Spec2Isabelle
  imports Main
begin

section \<open>JavaScript values\<close>

text \<open>
  The adapter (\<^verbatim>\<open>src/index.ts\<close>) moves untyped JavaScript values around: the
  arguments of a tool call (\<^verbatim>\<open>Record<string, unknown>\<close>), the validated
  arguments, and the decoded JSON document of a remote response.  They are modelled by
  one datatype.  An object is an association list in property order
  (\<^verbatim>\<open>Object.entries\<close> order).  Strings are byte strings.

  A number of the language is an IEEE double.  The program never computes with a number:
  it tests it, prints it or passes it on.  A finite number is therefore held as the decimal
  by which the language identifies it when it prints it (\<^verbatim>\<open>Number::toString\<close>): the
  digits \<open>s\<close> and the exponent \<open>e\<close> of the shortest decimal \<open>s * 10 ^ e\<close> that is
  nearer to this double than to any other, so that \<open>s\<close> is not a multiple of ten.  A
  zero has \<open>s = 0\<close> and keeps its sign (\<open>True\<close> for a negative number).  \<^verbatim>\<open>1.5\<close> is
  \<open>Finite False 15 (- 1)\<close>, \<^verbatim>\<open>1e21\<close> is \<open>Finite False 1 21\<close>, and the double
  \<^verbatim>\<open>12345678901234567168\<close> is \<open>Finite False 12345678901234567 3\<close>.  Every double has
  one such decimal; a decimal that belongs to no double stands for no number of the
  language, and no step of the program makes one.
\<close>

datatype jsnum =
    Finite bool nat int
  | Infinite bool
  | NaN

datatype jsval =
    JUndefined
  | JNull
  | JBool bool
  | JNum jsnum
  | JStr string
  | JArr "jsval list"
  | JObj "(string \<times> jsval) list"

text \<open>Property read \<^verbatim>\<open>data[key]\<close>: an absent property reads as \<^verbatim>\<open>undefined\<close>.\<close>

fun get_prop :: "jsval \<Rightarrow> string \<Rightarrow> jsval" where
  "get_prop (JObj kvs) k = (case map_of kvs k of None \<Rightarrow> JUndefined | Some v \<Rightarrow> v)"
| "get_prop _ k = JUndefined"

text \<open>\<^verbatim>\<open>key in data\<close> for a plain object.\<close>

fun has_key :: "jsval \<Rightarrow> string \<Rightarrow> bool" where
  "has_key (JObj kvs) k = (map_of kvs k \<noteq> None)"
| "has_key _ k = False"

text \<open>JavaScript truthiness (\<^verbatim>\<open>ToBoolean\<close>), as used by \<^verbatim>\<open>||\<close>, \<^verbatim>\<open>!\<close> and \<^verbatim>\<open>if\<close>.\<close>

fun truthy :: "jsval \<Rightarrow> bool" where
  "truthy JUndefined = False"
| "truthy JNull = False"
| "truthy (JBool b) = b"
| "truthy (JNum n) = (case n of Finite neg s e \<Rightarrow> s \<noteq> 0 | Infinite neg \<Rightarrow> True | NaN \<Rightarrow> False)"
| "truthy (JStr s) = (s \<noteq> [])"
| "truthy (JArr xs) = True"
| "truthy (JObj kvs) = True"

text \<open>\<^verbatim>\<open>a || b\<close>: the first operand when it is truthy, the second otherwise.\<close>

definition js_or :: "jsval \<Rightarrow> jsval \<Rightarrow> jsval" where
  "js_or a b = (if truthy a then a else b)"

subsection \<open>Rendering numbers and joining strings\<close>

function show_nat :: "nat \<Rightarrow> string" where
  "show_nat n =
     (if n < 10 then [''0123456789'' ! n]
      else show_nat (n div 10) @ [''0123456789'' ! (n mod 10)])"
  by pat_completeness auto
termination
  by (relation "measure id") auto

declare show_nat.simps [simp del]

text \<open>
  \<^verbatim>\<open>Number::toString\<close> in radix 10.  With \<open>k\<close> digits and \<open>n = e + k\<close> the position of
  the decimal point: plain digits, with zeros appended or a point inserted, when
  \<open>- 5 \<le> n \<le> 21\<close>; the exponent notation otherwise.
\<close>

definition layout :: "string \<Rightarrow> int \<Rightarrow> string" where
  "layout ds n =
     (let k = int (length ds) in
      if - 5 \<le> n \<and> n \<le> 21 then
        (if k \<le> n then ds @ replicate (nat (n - k)) CHR ''0''
         else if 0 < n then take (nat n) ds @ ''.'' @ drop (nat n) ds
         else ''0.'' @ replicate (nat (- n)) CHR ''0'' @ ds)
      else
        (let ex = (if n - 1 < 0 then ''-'' else ''+'') @ show_nat (nat \<bar>n - 1\<bar>)
         in if k = 1 then ds @ ''e'' @ ex
            else take 1 ds @ ''.'' @ drop 1 ds @ ''e'' @ ex))"

fun Number_toString :: "jsnum \<Rightarrow> string" where
  "Number_toString NaN = ''NaN''"
| "Number_toString (Infinite neg) = (if neg then ''-Infinity'' else ''Infinity'')"
| "Number_toString (Finite neg s e) =
     (if s = 0 then ''0''
      else (if neg then ''-'' else []) @ layout (show_nat s) (e + int (length (show_nat s))))"

text \<open>The digits of a decimal without the zeros at their end, and the number of an
  array index.\<close>

function strip_zeros :: "nat \<Rightarrow> int \<Rightarrow> nat \<times> int" where
  "strip_zeros s e =
     (if s \<noteq> 0 \<and> s mod 10 = 0 then strip_zeros (s div 10) (e + 1) else (s, e))"
  by pat_completeness auto
termination
  by (relation "measure fst") auto

declare strip_zeros.simps [simp del]

text \<open>The number of value \<open>m * 10 ^ e\<close>, with its sign.\<close>

definition decimal :: "bool \<Rightarrow> nat \<Rightarrow> int \<Rightarrow> jsnum" where
  "decimal neg m e =
     (if m = 0 then Finite neg 0 0
      else case strip_zeros m e of (s, e') \<Rightarrow> Finite neg s e')"

definition Number_of_nat :: "nat \<Rightarrow> jsnum" where
  "Number_of_nat n = decimal False n 0"

text \<open>\<^verbatim>\<open>Array.prototype.join\<close> on a list of strings.\<close>

fun join :: "string \<Rightarrow> string list \<Rightarrow> string" where
  "join sep [] = []"
| "join sep [x] = x"
| "join sep (x # y # ys) = x @ sep @ join sep (y # ys)"

text \<open>
  \<^verbatim>\<open>String(value)\<close> (\<^verbatim>\<open>ToString\<close>).  An array renders as its elements joined
  by commas, \<^verbatim>\<open>undefined\<close> and \<^verbatim>\<open>null\<close> elements as the empty string; a plain
  object renders as \<^verbatim>\<open>[object Object]\<close>.
\<close>

fun String_js :: "jsval \<Rightarrow> string" where
  "String_js JUndefined = ''undefined''"
| "String_js JNull = ''null''"
| "String_js (JBool b) = (if b then ''true'' else ''false'')"
| "String_js (JNum n) = Number_toString n"
| "String_js (JStr s) = s"
| "String_js (JArr xs) =
     join '','' (map (\<lambda>x. if x = JUndefined \<or> x = JNull then [] else String_js x) xs)"
| "String_js (JObj kvs) = ''[object Object]''"

subsection \<open>\<^verbatim>\<open>JSON.stringify\<close>\<close>

definition hex_lower :: "nat \<Rightarrow> char" where
  "hex_lower n = ''0123456789abcdef'' ! (n mod 16)"

text \<open>The value of a hexadecimal digit.\<close>

definition unhex :: "char \<Rightarrow> nat option" where
  "unhex c =
     (let n = (of_char c :: nat) in
      if 48 \<le> n \<and> n \<le> 57 then Some (n - 48)
      else if 65 \<le> n \<and> n \<le> 70 then Some (n - 55)
      else if 97 \<le> n \<and> n \<le> 102 then Some (n - 87)
      else None)"

text \<open>
  \<^verbatim>\<open>QuoteJSONString\<close>: the two-character escapes, \<^verbatim>\<open>\u00XX\<close> for the other
  control characters, every other character as it is.
\<close>

definition quote_char :: "char \<Rightarrow> string" where
  "quote_char c =
     (if c = CHR 0x08 then [CHR 0x5C, CHR ''b'']
      else if c = CHR 0x09 then [CHR 0x5C, CHR ''t'']
      else if c = CHR 0x0A then [CHR 0x5C, CHR ''n'']
      else if c = CHR 0x0C then [CHR 0x5C, CHR ''f'']
      else if c = CHR 0x0D then [CHR 0x5C, CHR ''r'']
      else if c = CHR 0x22 then [CHR 0x5C, CHR 0x22]
      else if c = CHR 0x5C then [CHR 0x5C, CHR 0x5C]
      else if (of_char c :: nat) < 32
        then [CHR 0x5C, CHR ''u'', CHR ''0'', CHR ''0'',
              hex_lower (of_char c div 16), hex_lower (of_char c)]
      else [c])"

definition QuoteJSONString :: "string \<Rightarrow> string" where
  "QuoteJSONString s = CHR 0x22 # concat (map quote_char s) @ [CHR 0x22]"

text \<open>
  \<^verbatim>\<open>SerializeJSONProperty\<close> with its two helpers inlined.  \<open>gap\<close> is the
  indentation unit (empty for \<^verbatim>\<open>JSON.stringify(v)\<close>, two spaces for
  \<^verbatim>\<open>JSON.stringify(v, null, 2)\<close>), \<open>indent\<close> the current indentation.
  \<^verbatim>\<open>undefined\<close> has no serialization (\<open>None\<close>): it is left out of an object and
  written \<^verbatim>\<open>null\<close> in an array.  A number that is not finite is written \<^verbatim>\<open>null\<close>.
\<close>

fun SerializeJSONProperty :: "string \<Rightarrow> string \<Rightarrow> jsval \<Rightarrow> string option" where
  "SerializeJSONProperty gap indent JUndefined = None"
| "SerializeJSONProperty gap indent JNull = Some ''null''"
| "SerializeJSONProperty gap indent (JBool b) = Some (if b then ''true'' else ''false'')"
| "SerializeJSONProperty gap indent (JNum n) =
     Some (case n of Finite neg s e \<Rightarrow> Number_toString n | _ \<Rightarrow> ''null'')"
| "SerializeJSONProperty gap indent (JStr s) = Some (QuoteJSONString s)"
| "SerializeJSONProperty gap indent (JArr xs) =
     (let stepback = indent;
          indent' = indent @ gap;
          partial = map (\<lambda>x. case SerializeJSONProperty gap indent' x of
                                None \<Rightarrow> ''null'' | Some s \<Rightarrow> s) xs
      in Some (if partial = [] then ''[]''
               else if gap = [] then ''['' @ join '','' partial @ '']''
               else ''['' @ [CHR 0x0A] @ indent' @
                    join ('','' @ [CHR 0x0A] @ indent') partial @
                    [CHR 0x0A] @ stepback @ '']''))"
| "SerializeJSONProperty gap indent (JObj kvs) =
     (let stepback = indent;
          indent' = indent @ gap;
          partial = concat (map (\<lambda>kv. case SerializeJSONProperty gap indent' (snd kv) of
                                None \<Rightarrow> []
                              | Some s \<Rightarrow> [QuoteJSONString (fst kv) @ '':'' @
                                           (if gap = [] then [] else '' '') @ s]) kvs)
      in Some (if partial = [] then ''{}''
               else if gap = [] then ''{'' @ join '','' partial @ ''}''
               else ''{'' @ [CHR 0x0A] @ indent' @
                    join ('','' @ [CHR 0x0A] @ indent') partial @
                    [CHR 0x0A] @ stepback @ ''}''))"

text \<open>\<^verbatim>\<open>JSON.stringify(v)\<close> and \<^verbatim>\<open>JSON.stringify(v, null, 2)\<close>.\<close>

definition JSON_stringify :: "jsval \<Rightarrow> string option" where
  "JSON_stringify v = SerializeJSONProperty [] [] v"

definition JSON_stringify2 :: "jsval \<Rightarrow> string option" where
  "JSON_stringify2 v = SerializeJSONProperty ''  '' [] v"

subsection \<open>The document of a JSON text\<close>

text \<open>
  What "the same JSON document" means for a text: the document that the text denotes by
  the JSON grammar (ECMA-404).  This reader is the yardstick for the text of a result, not
  a part of the program and not the \<^verbatim>\<open>JSON.parse\<close> of the language, which rounds each
  number to a double and orders the keys that are array indices.  A number is read
  exactly, as the decimal \<open>s * 10 ^ e\<close> without a zero at the end of \<open>s\<close>; the members of
  an object are kept in the order of the text, a repeated key keeping its first position
  and taking its last value; of the \<^verbatim>\<open>\u\<close> escapes only \<^verbatim>\<open>\u00XX\<close> denotes a byte and
  is read.  The mutually recursive readers of a value, of the elements of an array and of
  the members of an object are one function with a mode; it has no result (\<open>None\<close>) on a
  text that is not JSON.
\<close>

definition is_ws :: "char \<Rightarrow> bool" where
  "is_ws c = (c = CHR '' '' \<or> c = CHR 0x0A \<or> c = CHR 0x0D \<or> c = CHR 0x09)"

definition skip_ws :: "string \<Rightarrow> string" where
  "skip_ws s = dropWhile is_ws s"

definition is_digit :: "char \<Rightarrow> bool" where
  "is_digit c = (48 \<le> (of_char c :: nat) \<and> (of_char c :: nat) \<le> 57)"

definition parse_nat :: "string \<Rightarrow> nat" where
  "parse_nat ds = foldl (\<lambda>a c. 10 * a + (of_char c - 48)) 0 ds"

text \<open>The fraction of a number, if it has one: a point and at least one digit.\<close>

definition read_fraction :: "string \<Rightarrow> (string \<times> string) option" where
  "read_fraction s =
     (case s of
        [] \<Rightarrow> Some ([], s)
      | c # cs \<Rightarrow>
          if c = CHR ''.'' then
            (if takeWhile is_digit cs = [] then None
             else Some (takeWhile is_digit cs, dropWhile is_digit cs))
          else Some ([], s))"

text \<open>The exponent of a number, if it has one: \<^verbatim>\<open>e\<close> or \<^verbatim>\<open>E\<close>, an optional sign and at
  least one digit.\<close>

definition read_exponent :: "string \<Rightarrow> (int \<times> string) option" where
  "read_exponent s =
     (case s of
        [] \<Rightarrow> Some (0, s)
      | c # cs \<Rightarrow>
          if c = CHR ''e'' \<or> c = CHR ''E'' then
            (let signed = (cs \<noteq> [] \<and> (hd cs = CHR ''-'' \<or> hd cs = CHR ''+''));
                 ds = (if signed then tl cs else cs)
             in if takeWhile is_digit ds = [] then None
                else Some ((if cs \<noteq> [] \<and> hd cs = CHR ''-''
                            then - int (parse_nat (takeWhile is_digit ds))
                            else int (parse_nat (takeWhile is_digit ds))),
                           dropWhile is_digit ds))
          else Some (0, s))"

text \<open>A number without its sign: the integer part (one zero, or digits that do not start
  with a zero), the fraction and the exponent; the digits of both parts with the exponent
  that places the point after them.\<close>

definition parse_decimal :: "string \<Rightarrow> ((nat \<times> int) \<times> string) option" where
  "parse_decimal s =
     (let ip = takeWhile is_digit s
      in if ip = [] \<or> (1 < length ip \<and> hd ip = CHR ''0'') then None
         else
           (case read_fraction (dropWhile is_digit s) of
              None \<Rightarrow> None
            | Some fr \<Rightarrow>
                (case read_exponent (snd fr) of
                   None \<Rightarrow> None
                 | Some er \<Rightarrow>
                     Some ((parse_nat (ip @ fst fr), fst er - int (length (fst fr))), snd er))))"

definition parse_number :: "string \<Rightarrow> (jsval \<times> string) option" where
  "parse_number s =
     (case s of
        [] \<Rightarrow> None
      | c # cs \<Rightarrow>
          if c = CHR ''-''
          then map_option (\<lambda>dr. (JNum (decimal True (fst (fst dr)) (snd (fst dr))), snd dr))
                          (parse_decimal cs)
          else map_option (\<lambda>dr. (JNum (decimal False (fst (fst dr)) (snd (fst dr))), snd dr))
                          (parse_decimal s))"

definition unescape :: "char \<Rightarrow> char option" where
  "unescape e =
     (if e = CHR 0x22 then Some (CHR 0x22)
      else if e = CHR 0x5C then Some (CHR 0x5C)
      else if e = CHR ''/'' then Some (CHR ''/'')
      else if e = CHR ''b'' then Some (CHR 0x08)
      else if e = CHR ''f'' then Some (CHR 0x0C)
      else if e = CHR ''n'' then Some (CHR 0x0A)
      else if e = CHR ''r'' then Some (CHR 0x0D)
      else if e = CHR ''t'' then Some (CHR 0x09)
      else None)"

definition cons_char :: "char \<Rightarrow> (string \<times> string) option \<Rightarrow> (string \<times> string) option" where
  "cons_char c r = map_option (\<lambda>sr. (c # fst sr, snd sr)) r"

fun parse_string :: "string \<Rightarrow> (string \<times> string) option" where
  "parse_string [] = None"
| "parse_string (c # cs) =
     (if c = CHR 0x22 then Some ([], cs)
      else if c = CHR 0x5C then
        (case cs of
           [] \<Rightarrow> None
         | e # rest \<Rightarrow>
             if e = CHR ''u'' then
               (case rest of
                  h1 # h2 # h3 # h4 # rest' \<Rightarrow>
                    (case (unhex h1, unhex h2, unhex h3, unhex h4) of
                       (Some a, Some b, Some c', Some d) \<Rightarrow>
                         if a = 0 \<and> b = 0 then cons_char (char_of (16 * c' + d)) (parse_string rest')
                         else None
                     | _ \<Rightarrow> None)
                | _ \<Rightarrow> None)
             else (case unescape e of
                     None \<Rightarrow> None
                   | Some ch \<Rightarrow> cons_char ch (parse_string rest)))
      else if (of_char c :: nat) < 32 then None
      else cons_char c (parse_string cs))"

definition obj_set :: "(string \<times> jsval) list \<Rightarrow> string \<Rightarrow> jsval \<Rightarrow> (string \<times> jsval) list" where
  "obj_set kvs k v =
     (if k \<in> set (map fst kvs) then map (\<lambda>kv. if fst kv = k then (k, v) else kv) kvs
      else kvs @ [(k, v)])"

datatype pmode = PValue | PElems "jsval list" | PMembers "(string \<times> jsval) list"

partial_function (option) parse_json :: "pmode \<Rightarrow> string \<Rightarrow> (jsval \<times> string) option" where
  "parse_json mode s =
    (case mode of
       PValue \<Rightarrow>
         (case skip_ws s of
            [] \<Rightarrow> None
          | c # cs \<Rightarrow>
              if c = CHR ''n'' then (if take 3 cs = ''ull'' then Some (JNull, drop 3 cs) else None)
              else if c = CHR ''t'' then (if take 3 cs = ''rue'' then Some (JBool True, drop 3 cs) else None)
              else if c = CHR ''f'' then (if take 4 cs = ''alse'' then Some (JBool False, drop 4 cs) else None)
              else if c = CHR 0x22 then map_option (\<lambda>sr. (JStr (fst sr), snd sr)) (parse_string cs)
              else if c = CHR ''['' then
                (case skip_ws cs of
                   [] \<Rightarrow> None
                 | c' # rest \<Rightarrow>
                     if c' = CHR '']'' then Some (JArr [], rest) else parse_json (PElems []) cs)
              else if c = CHR ''{'' then
                (case skip_ws cs of
                   [] \<Rightarrow> None
                 | c' # rest \<Rightarrow>
                     if c' = CHR ''}'' then Some (JObj [], rest) else parse_json (PMembers []) cs)
              else parse_number (c # cs))
     | PElems acc \<Rightarrow>
         Option.bind (parse_json PValue s) (\<lambda>vr.
           case skip_ws (snd vr) of
             [] \<Rightarrow> None
           | c # rest \<Rightarrow>
               if c = CHR '','' then parse_json (PElems (acc @ [fst vr])) rest
               else if c = CHR '']'' then Some (JArr (acc @ [fst vr]), rest)
               else None)
     | PMembers acc \<Rightarrow>
         (case skip_ws s of
            [] \<Rightarrow> None
          | c # cs \<Rightarrow>
              if c \<noteq> CHR 0x22 then None
              else
                (case parse_string cs of
                   None \<Rightarrow> None
                 | Some kr \<Rightarrow>
                     (case skip_ws (snd kr) of
                        [] \<Rightarrow> None
                      | c1 # rest1 \<Rightarrow>
                          if c1 \<noteq> CHR '':'' then None
                          else
                            Option.bind (parse_json PValue rest1) (\<lambda>vr.
                              case skip_ws (snd vr) of
                                [] \<Rightarrow> None
                              | c2 # rest3 \<Rightarrow>
                                  if c2 = CHR '','' then
                                    parse_json (PMembers (obj_set acc (fst kr) (fst vr))) rest3
                                  else if c2 = CHR ''}'' then
                                    Some (JObj (obj_set acc (fst kr) (fst vr)), rest3)
                                  else None)))))"

text \<open>A whole text: one value, and nothing but white space after it.\<close>

definition read_json :: "string \<Rightarrow> jsval option" where
  "read_json s =
     (case parse_json PValue s of
        None \<Rightarrow> None
      | Some vr \<Rightarrow> if skip_ws (snd vr) = [] then Some (fst vr) else None)"

text \<open>
  The numbers that a JSON text can hold as the language prints them: the finite ones; the
  digits have no zero at their end, and zero is the positive zero (\<^verbatim>\<open>-0\<close> is printed
  \<^verbatim>\<open>0\<close>).
\<close>

fun json_number :: "jsnum \<Rightarrow> bool" where
  "json_number (Finite neg s e) = (if s = 0 then \<not> neg \<and> e = 0 else s mod 10 \<noteq> 0)"
| "json_number (Infinite neg) = False"
| "json_number NaN = False"

text \<open>A JSON document: no \<^verbatim>\<open>undefined\<close> inside, such numbers only, and the keys of an
  object distinct.\<close>

fun json_doc :: "jsval \<Rightarrow> bool" where
  "json_doc JUndefined = False"
| "json_doc JNull = True"
| "json_doc (JBool b) = True"
| "json_doc (JNum n) = json_number n"
| "json_doc (JStr s) = True"
| "json_doc (JArr xs) = (\<forall>x \<in> set xs. json_doc x)"
| "json_doc (JObj kvs) = (distinct (map fst kvs) \<and> (\<forall>kv \<in> set kvs. json_doc (snd kv)))"

text \<open>What may follow a serialized value inside a serialized document: nothing, a comma or
  a line break.\<close>

definition ends_token :: "string \<Rightarrow> bool" where
  "ends_token rest = (rest = [] \<or> hd rest = CHR '','' \<or> hd rest = CHR 0x0A)"

text \<open>A value whose serialization at an indentation parses back, whatever follows it.\<close>

definition roundtrips :: "string \<Rightarrow> jsval \<Rightarrow> bool" where
  "roundtrips ind x =
     (\<exists>t. SerializeJSONProperty ''  '' ind x = Some t \<and>
          (\<forall>rest. ends_token rest \<longrightarrow> parse_json PValue (t @ rest) = Some (x, rest)))"

section \<open>Errors\<close>

text \<open>
  What the program can throw.  \<open>ZodError\<close> is the validation error of the schema
  library, carrying its issues; \<open>Error\<close> is a plain \<^verbatim>\<open>Error\<close> with its message
  (the configuration error of the constructor, the remote error of \<^verbatim>\<open>makeRequest\<close>,
  an error of \<^verbatim>\<open>fetch\<close> or of a body reader); \<open>NonError\<close> stands for a thrown
  value that is not an instance of \<^verbatim>\<open>Error\<close>.
\<close>

datatype zod_issue =
    InvalidType string string "jsval list" string
  | Custom string "jsval list"

datatype exn =
    ZodError "zod_issue list"
  | Error string
  | NonError

text \<open>The issue objects of zod 3, with their key order, and the message of a \<open>ZodError\<close>:
  \<^verbatim>\<open>JSON.stringify(this.issues, jsonStringifyReplacer, 2)\<close>.\<close>

fun issue_json :: "zod_issue \<Rightarrow> jsval" where
  "issue_json (InvalidType expected received path message) =
     JObj [(''code'', JStr ''invalid_type''), (''expected'', JStr expected),
           (''received'', JStr received), (''path'', JArr path), (''message'', JStr message)]"
| "issue_json (Custom message path) =
     JObj [(''code'', JStr ''custom''), (''message'', JStr message), (''path'', JArr path)]"

fun issue_message :: "zod_issue \<Rightarrow> string" where
  "issue_message (InvalidType expected received path message) = message"
| "issue_message (Custom message path) = message"

fun issue_path :: "zod_issue \<Rightarrow> jsval list" where
  "issue_path (InvalidType expected received path message) = path"
| "issue_path (Custom message path) = path"

fun error_message :: "exn \<Rightarrow> string" where
  "error_message (ZodError issues) =
     (case JSON_stringify2 (JArr (map issue_json issues)) of None \<Rightarrow> [] | Some s \<Rightarrow> s)"
| "error_message (Error m) = m"
| "error_message NonError = []"

section \<open>Schema validation (zod)\<close>

text \<open>
  The schemas of the program are built from \<^verbatim>\<open>z.string()\<close>, \<^verbatim>\<open>.optional()\<close>,
  \<^verbatim>\<open>z.array(_)\<close>, \<^verbatim>\<open>z.object({...})\<close> and \<^verbatim>\<open>.refine(check, {message})\<close>
  (\<^verbatim>\<open>.describe(_)\<close> only attaches documentation and is left out).  The library is not
  part of the repository; \<open>zparse\<close> follows the synchronous \<^verbatim>\<open>_parse\<close> of zod 3:
  every issue is collected, a value of the wrong type aborts (\<open>None\<close>), an object
  aborts when one of its fields aborts, unknown keys are stripped, and a refinement runs
  only when the schema it refines did not abort.
\<close>

datatype zschema =
    ZString
  | ZOptional zschema
  | ZArray zschema
  | ZObject "(string \<times> zschema) list"
  | ZRefine zschema "jsval \<Rightarrow> bool" string

fun getParsedType :: "jsval \<Rightarrow> string" where
  "getParsedType JUndefined = ''undefined''"
| "getParsedType JNull = ''null''"
| "getParsedType (JBool b) = ''boolean''"
| "getParsedType (JNum n) = (if n = NaN then ''nan'' else ''number'')"
| "getParsedType (JStr s) = ''string''"
| "getParsedType (JArr xs) = ''array''"
| "getParsedType (JObj kvs) = ''object''"

definition invalid_type :: "string \<Rightarrow> jsval \<Rightarrow> jsval list \<Rightarrow> zod_issue" where
  "invalid_type expected v path =
     InvalidType expected (getParsedType v) path
       (if v = JUndefined then ''Required''
        else ''Expected '' @ expected @ '', received '' @ getParsedType v)"

fun zparse :: "zschema \<Rightarrow> jsval list \<Rightarrow> jsval \<Rightarrow> zod_issue list \<times> jsval option" where
  "zparse ZString path v =
     (case v of JStr s \<Rightarrow> ([], Some v) | _ \<Rightarrow> ([invalid_type ''string'' v path], None))"
| "zparse (ZOptional s) path v =
     (if v = JUndefined then ([], Some JUndefined) else zparse s path v)"
| "zparse (ZArray s) path v =
     (case v of
        JArr xs \<Rightarrow>
          (let results = map (\<lambda>ix. zparse s (path @ [JNum (Number_of_nat (fst ix))]) (snd ix))
                             (enumerate 0 xs)
           in (concat (map fst results), map_option JArr (those (map snd results))))
      | _ \<Rightarrow> ([invalid_type ''array'' v path], None))"
| "zparse (ZObject shape) path v =
     (case v of
        JObj kvs \<Rightarrow>
          (let pairs = map (\<lambda>ks. (fst ks, zparse (snd ks) (path @ [JStr (fst ks)])
                                              (get_prop v (fst ks)))) shape
           in (concat (map (\<lambda>p. fst (snd p)) pairs),
               map_option
                 (\<lambda>vals. JObj (filter (\<lambda>kx. snd kx \<noteq> JUndefined \<or> has_key v (fst kx))
                                       (zip (map fst shape) vals)))
                 (those (map (\<lambda>p. snd (snd p)) pairs))))
      | _ \<Rightarrow> ([invalid_type ''object'' v path], None))"
| "zparse (ZRefine s check message) path v =
     (case zparse s path v of
        (issues, None) \<Rightarrow> (issues, None)
      | (issues, Some x) \<Rightarrow>
          (if check x then (issues, Some x) else (issues @ [Custom message path], Some x)))"

text \<open>\<^verbatim>\<open>schema.parse(data)\<close>: the parsed value, or a \<open>ZodError\<close> with every issue.\<close>

definition parse :: "zschema \<Rightarrow> jsval \<Rightarrow> exn + jsval" where
  "parse schema data =
     (case zparse schema [] data of
        (issues, Some x) \<Rightarrow> if issues = [] then Inr x else Inl (ZodError issues)
      | (issues, None) \<Rightarrow> Inl (ZodError issues))"

subsection \<open>The schemas of the nine tools\<close>

text \<open>The refinement shared by seven schemas: \<^verbatim>\<open>(data) => data.user_id || data.project_id\<close>.\<close>

definition user_or_project :: "jsval \<Rightarrow> bool" where
  "user_or_project data = truthy (js_or (get_prop data ''user_id'') (get_prop data ''project_id''))"

definition either_message :: string where
  "either_message = ''Either user_id or project_id is required''"

definition StartAutomationSchema :: zschema where
  "StartAutomationSchema =
     ZObject [(''user_id'', ZString),
              (''saved_item_id'', ZString),
              (''project_id'', ZOptional ZString),
              (''pipeline_inputs'',
                 ZOptional (ZArray (ZObject [(''input_name'', ZString), (''value'', ZString)])))]"

definition RetrieveRunDetailsSchema :: zschema where
  "RetrieveRunDetailsSchema =
     ZRefine (ZObject [(''run_id'', ZString),
                       (''user_id'', ZOptional ZString),
                       (''project_id'', ZOptional ZString)])
             user_or_project either_message"

definition ListSavedFlowsSchema :: zschema where
  "ListSavedFlowsSchema =
     ZRefine (ZObject [(''user_id'', ZOptional ZString),
                       (''project_id'', ZOptional ZString)])
             user_or_project either_message"

definition ListWorkbooksSchema :: zschema where
  "ListWorkbooksSchema =
     ZRefine (ZObject [(''user_id'', ZOptional ZString),
                       (''project_id'', ZOptional ZString)])
             user_or_project either_message"

definition RetrieveInputSchemaSchema :: zschema where
  "RetrieveInputSchemaSchema =
     ZRefine (ZObject [(''saved_item_id'', ZString),
                       (''user_id'', ZOptional ZString),
                       (''project_id'', ZOptional ZString)])
             user_or_project either_message"

definition UploadFileSchema :: zschema where
  "UploadFileSchema =
     ZRefine (ZObject [(''file_name'', ZString),
                       (''file_content'', ZString),
                       (''user_id'', ZOptional ZString),
                       (''project_id'', ZOptional ZString)])
             user_or_project either_message"

definition UploadMultipleFilesSchema :: zschema where
  "UploadMultipleFilesSchema =
     ZRefine (ZObject [(''files'',
                          ZArray (ZObject [(''file_name'', ZString), (''file_content'', ZString)])),
                       (''user_id'', ZOptional ZString),
                       (''project_id'', ZOptional ZString)])
             user_or_project either_message"

definition DownloadFileSchema :: zschema where
  "DownloadFileSchema =
     ZObject [(''file_name'', ZString),
              (''run_id'', ZString),
              (''saved_item_id'', ZString),
              (''user_id'', ZOptional ZString),
              (''project_id'', ZOptional ZString)]"

definition DownloadMultipleFilesSchema :: zschema where
  "DownloadMultipleFilesSchema =
     ZRefine (ZObject [(''file_names'', ZArray ZString),
                       (''run_id'', ZString),
                       (''user_id'', ZOptional ZString),
                       (''project_id'', ZOptional ZString),
                       (''saved_item_id'', ZOptional ZString)])
             user_or_project either_message"

section \<open>The API gateway\<close>

subsection \<open>Requests, responses and the remote platform\<close>

datatype http_method = GET | POST

text \<open>The two arguments of \<^verbatim>\<open>fetch(url, options)\<close>.\<close>

record request =
  req_url :: string
  req_method :: http_method
  req_headers :: "(string \<times> string) list"
  req_body :: "string option"

text \<open>
  What the program reads of a \<^verbatim>\<open>Response\<close>: the status and its text, the value of
  \<^verbatim>\<open>headers.get("content-type")\<close> (\<open>None\<close> for \<^verbatim>\<open>null\<close>), and what the two body
  readers \<^verbatim>\<open>json()\<close> and \<^verbatim>\<open>arrayBuffer()\<close> would return (the decoded document or
  the bytes) or throw.
\<close>

record response =
  status :: nat
  statusText :: string
  content_type :: "string option"
  json :: "exn + jsval"
  arrayBuffer :: "exn + nat list"

text \<open>\<^verbatim>\<open>response.ok\<close>: the status is in the range 200 to 299.\<close>

definition ok :: "response \<Rightarrow> bool" where
  "ok r = (200 \<le> status r \<and> status r \<le> 299)"

text \<open>
  The effects on the network are recorded in a trace: each \<^verbatim>\<open>fetch\<close> with its
  request, and each read of a response body.  The remote platform answers a request,
  given the trace so far, with a response or a rejection of \<^verbatim>\<open>fetch\<close>.
\<close>

datatype event = Fetch request | ReadJson | ReadArrayBuffer

type_synonym remote = "event list \<Rightarrow> request \<Rightarrow> exn + response"

text \<open>What \<^verbatim>\<open>makeRequest\<close> returns: a decoded JSON document or an \<^verbatim>\<open>ArrayBuffer\<close>.\<close>

datatype resp_value = RJson jsval | RBinary "nat list"

subsection \<open>Query strings\<close>

text \<open>\<^verbatim>\<open>Object.entries(data)\<close>: own enumerable properties, in order.\<close>

fun Object_entries :: "jsval \<Rightarrow> (string \<times> jsval) list" where
  "Object_entries (JObj kvs) = kvs"
| "Object_entries (JArr xs) = map (\<lambda>ix. (show_nat (fst ix), snd ix)) (enumerate 0 xs)"
| "Object_entries (JStr s) = map (\<lambda>ix. (show_nat (fst ix), JStr [snd ix])) (enumerate 0 s)"
| "Object_entries _ = []"

text \<open>The loop of \<^verbatim>\<open>makeRequest\<close> that fills \<^verbatim>\<open>queryParams\<close>.\<close>

definition query_params :: "jsval \<Rightarrow> (string \<times> string) list" where
  "query_params data =
     map (\<lambda>kv. (fst kv, String_js (snd kv)))
         (filter (\<lambda>kv. snd kv \<noteq> JUndefined \<and> snd kv \<noteq> JNull) (Object_entries data))"

definition hex_upper :: "nat \<Rightarrow> char" where
  "hex_upper n = ''0123456789ABCDEF'' ! (n mod 16)"

text \<open>
  \<^verbatim>\<open>URLSearchParams.prototype.toString\<close>: the \<^verbatim>\<open>application/x-www-form-urlencoded\<close>
  serializer.  Letters, digits and \<^verbatim>\<open>* - . _\<close> stay, a space becomes \<^verbatim>\<open>+\<close>,
  every other byte is percent-encoded.
\<close>

definition urlencode_char :: "char \<Rightarrow> string" where
  "urlencode_char c =
     (let n = (of_char c :: nat) in
      if (48 \<le> n \<and> n \<le> 57) \<or> (65 \<le> n \<and> n \<le> 90) \<or> (97 \<le> n \<and> n \<le> 122)
         \<or> c = CHR ''*'' \<or> c = CHR ''-'' \<or> c = CHR ''.'' \<or> c = CHR ''_''
        then [c]
      else if c = CHR '' '' then ''+''
      else [CHR ''%'', hex_upper (n div 16), hex_upper n])"

definition urlencode :: "string \<Rightarrow> string" where
  "urlencode s = concat (map urlencode_char s)"

definition URLSearchParams_toString :: "(string \<times> string) list \<Rightarrow> string" where
  "URLSearchParams_toString ps =
     join ''&'' (map (\<lambda>kv. urlencode (fst kv) @ ''='' @ urlencode (snd kv)) ps)"

text \<open>The parser of \<^verbatim>\<open>application/x-www-form-urlencoded\<close> strings (what
  \<^verbatim>\<open>new URLSearchParams(queryString)\<close> does on the receiving side): split at \<^verbatim>\<open>&\<close>,
  skip empty pieces, split each piece at its first \<^verbatim>\<open>=\<close>, turn \<^verbatim>\<open>+\<close> into a space and
  decode \<^verbatim>\<open>%XX\<close>.\<close>

fun urldecode :: "string \<Rightarrow> string" where
  "urldecode [] = []"
| "urldecode (c # cs) =
     (if c = CHR ''+'' then CHR '' '' # urldecode cs
      else if c = CHR ''%'' then
        (case cs of
           h1 # h2 # rest \<Rightarrow>
             (case (unhex h1, unhex h2) of
                (Some a, Some b) \<Rightarrow> char_of (16 * a + b) # urldecode rest
              | _ \<Rightarrow> c # urldecode cs)
         | _ \<Rightarrow> c # urldecode cs)
      else c # urldecode cs)"

fun split_on :: "char \<Rightarrow> string \<Rightarrow> string list" where
  "split_on sep [] = [[]]"
| "split_on sep (c # cs) =
     (if c = sep then [] # split_on sep cs
      else (case split_on sep cs of p # ps \<Rightarrow> (c # p) # ps | [] \<Rightarrow> [[c]]))"

definition parse_pair :: "string \<Rightarrow> string \<times> string" where
  "parse_pair piece =
     (urldecode (takeWhile (\<lambda>c. c \<noteq> CHR ''='') piece),
      urldecode (drop 1 (dropWhile (\<lambda>c. c \<noteq> CHR ''='') piece)))"

definition parse_query :: "string \<Rightarrow> (string \<times> string) list" where
  "parse_query s = map parse_pair (filter (\<lambda>piece. piece \<noteq> []) (split_on CHR ''&'' s))"

text \<open>\<^verbatim>\<open>s.includes(t)\<close>.\<close>

fun str_includes :: "string \<Rightarrow> string \<Rightarrow> bool" where
  "str_includes [] t = (t = [])"
| "str_includes (c # cs) t = (take (length t) (c # cs) = t \<or> str_includes cs t)"

subsection \<open>\<^verbatim>\<open>class GumloopAPI\<close>\<close>

record GumloopAPI =
  baseUrl :: string
  apiKey :: string

text \<open>The constructor reads \<^verbatim>\<open>process.env.GUMLOOP_API_KEY\<close>; \<^verbatim>\<open>!apiKey\<close> holds for a
  missing variable and for an empty one.\<close>

definition GumloopAPI_new :: "(string \<rightharpoonup> string) \<Rightarrow> exn + GumloopAPI" where
  "GumloopAPI_new env =
     (case env ''GUMLOOP_API_KEY'' of
        None \<Rightarrow> Inl (Error ''GUMLOOP_API_KEY environment variable is required'')
      | Some k \<Rightarrow>
          if k = [] then Inl (Error ''GUMLOOP_API_KEY environment variable is required'')
          else Inr \<lparr>baseUrl = ''https://api.gumloop.com/api/v1'', apiKey = k\<rparr>)"

text \<open>The test \<^verbatim>\<open>contentType && contentType.includes("application/json")\<close> on the
  declared content type of a response.\<close>

definition is_json_response :: "response \<Rightarrow> bool" where
  "is_json_response r =
     (case content_type r of
        None \<Rightarrow> False
      | Some contentType \<Rightarrow> contentType \<noteq> [] \<and> str_includes contentType ''application/json'')"

text \<open>The request that \<^verbatim>\<open>makeRequest\<close> builds before it calls \<^verbatim>\<open>fetch\<close>.\<close>

definition build_request :: "GumloopAPI \<Rightarrow> string \<Rightarrow> http_method \<Rightarrow> jsval \<Rightarrow> request" where
  "build_request api endpoint method data =
     (let headers = [(''Authorization'', ''Bearer '' @ apiKey api),
                     (''Content-Type'', ''application/json'')];
          url = baseUrl api @ endpoint
      in if method = GET \<and> truthy data then
           (let queryString = URLSearchParams_toString (query_params data)
            in \<lparr>req_url = (if queryString \<noteq> [] then url @ ''?'' @ queryString else url),
                req_method = method, req_headers = headers, req_body = None\<rparr>)
         else if truthy data then
           \<lparr>req_url = url, req_method = method, req_headers = headers,
            req_body = JSON_stringify data\<rparr>
         else
           \<lparr>req_url = url, req_method = method, req_headers = headers, req_body = None\<rparr>)"

definition makeRequest ::
  "GumloopAPI \<Rightarrow> remote \<Rightarrow> event list \<Rightarrow> string \<Rightarrow> http_method \<Rightarrow> jsval
     \<Rightarrow> (exn + resp_value) \<times> event list" where
  "makeRequest api remote tr endpoint method data =
     (let req = build_request api endpoint method data;
          tr1 = tr @ [Fetch req]
      in case remote tr req of
           Inl e \<Rightarrow> (Inl e, tr1)
         | Inr response \<Rightarrow>
             if \<not> ok response then
               (Inl (Error (''Gumloop API request failed: '' @ show_nat (status response)
                            @ '' - '' @ statusText response)), tr1)
             else if is_json_response response
             then (map_sum id RJson (json response), tr1 @ [ReadJson])
             else (map_sum id RBinary (arrayBuffer response), tr1 @ [ReadArrayBuffer]))"

definition startAutomation where
  "startAutomation api remote tr params = makeRequest api remote tr ''/start_pipeline'' POST params"

definition retrieveRunDetails where
  "retrieveRunDetails api remote tr params = makeRequest api remote tr ''/get_pl_run'' GET params"

definition listSavedFlows where
  "listSavedFlows api remote tr params = makeRequest api remote tr ''/list_saved_items'' GET params"

definition listWorkbooks where
  "listWorkbooks api remote tr params = makeRequest api remote tr ''/list_workbooks'' GET params"

definition retrieveInputSchema where
  "retrieveInputSchema api remote tr params = makeRequest api remote tr ''/get_inputs'' GET params"

definition uploadFile where
  "uploadFile api remote tr params = makeRequest api remote tr ''/upload_file'' POST params"

definition uploadMultipleFiles where
  "uploadMultipleFiles api remote tr params = makeRequest api remote tr ''/upload_files'' POST params"

definition downloadFile where
  "downloadFile api remote tr params = makeRequest api remote tr ''/download_file'' POST params"

definition downloadMultipleFiles where
  "downloadMultipleFiles api remote tr params = makeRequest api remote tr ''/download_files'' POST params"

section \<open>The tool-call handler\<close>

text \<open>The result of a tool call: the text of its single content item, and the error flag
  (absent on success).\<close>

record ToolResult =
  content_text :: "string option"
  isError :: bool

text \<open>\<^verbatim>\<open>JSON.stringify(result, null, 2)\<close> on what \<^verbatim>\<open>makeRequest\<close> returned; an
  \<^verbatim>\<open>ArrayBuffer\<close> has no enumerable property and serializes as \<^verbatim>\<open>{}\<close>.\<close>

fun stringify_result :: "resp_value \<Rightarrow> string option" where
  "stringify_result (RJson v) = JSON_stringify2 v"
| "stringify_result (RBinary bytes) = Some ''{}''"

definition download_message :: string where
  "download_message =
     ''File downloaded successfully. Binary data is available but not displayed here.''"

definition download_multiple_message :: string where
  "download_multiple_message =
     ''Files downloaded successfully as a zip archive. Binary data is available but not displayed here.''"

text \<open>
  Every \<^verbatim>\<open>case\<close> of the switch has the same three steps: parse the arguments with the
  tool's schema, call the tool's gateway method on the validated arguments, return the
  text.  A \<open>ZodError\<close> of the first step or an error of the second leaves the
  \<^verbatim>\<open>try\<close> block (\<open>Inl\<close>).
\<close>

definition tool_case ::
  "zschema \<Rightarrow> (event list \<Rightarrow> jsval \<Rightarrow> (exn + resp_value) \<times> event list)
     \<Rightarrow> (resp_value \<Rightarrow> string option) \<Rightarrow> event list \<Rightarrow> jsval
     \<Rightarrow> (exn + ToolResult) \<times> event list" where
  "tool_case schema call render tr args =
     (case parse schema args of
        Inl e \<Rightarrow> (Inl e, tr)
      | Inr validatedArgs \<Rightarrow>
          (case call tr validatedArgs of
             (Inl e, tr') \<Rightarrow> (Inl e, tr')
           | (Inr result, tr') \<Rightarrow>
               (Inr \<lparr>content_text = render result, isError = False\<rparr>, tr')))"

text \<open>The body of the \<^verbatim>\<open>try\<close> block: the switch on \<^verbatim>\<open>request.params.name\<close>.\<close>

definition callTool_try ::
  "GumloopAPI \<Rightarrow> remote \<Rightarrow> event list \<Rightarrow> string \<Rightarrow> jsval \<Rightarrow> (exn + ToolResult) \<times> event list" where
  "callTool_try api remote tr name args =
     (if name = ''startAutomation'' then
        tool_case StartAutomationSchema (startAutomation api remote) stringify_result tr args
      else if name = ''retrieveRunDetails'' then
        tool_case RetrieveRunDetailsSchema (retrieveRunDetails api remote) stringify_result tr args
      else if name = ''listSavedFlows'' then
        tool_case ListSavedFlowsSchema (listSavedFlows api remote) stringify_result tr args
      else if name = ''listWorkbooks'' then
        tool_case ListWorkbooksSchema (listWorkbooks api remote) stringify_result tr args
      else if name = ''retrieveInputSchema'' then
        tool_case RetrieveInputSchemaSchema (retrieveInputSchema api remote) stringify_result tr args
      else if name = ''uploadFile'' then
        tool_case UploadFileSchema (uploadFile api remote) stringify_result tr args
      else if name = ''uploadMultipleFiles'' then
        tool_case UploadMultipleFilesSchema (uploadMultipleFiles api remote) stringify_result tr args
      else if name = ''downloadFile'' then
        tool_case DownloadFileSchema (downloadFile api remote)
          (\<lambda>result. Some download_message) tr args
      else if name = ''downloadMultipleFiles'' then
        tool_case DownloadMultipleFilesSchema (downloadMultipleFiles api remote)
          (\<lambda>result. Some download_multiple_message) tr args
      else
        (Inr \<lparr>content_text = Some (''Unknown tool: '' @ name), isError = True\<rparr>, tr))"

text \<open>The handler: the \<^verbatim>\<open>try\<close> block and its \<^verbatim>\<open>catch\<close>.\<close>

definition callTool ::
  "GumloopAPI \<Rightarrow> remote \<Rightarrow> event list \<Rightarrow> string \<Rightarrow> jsval \<Rightarrow> ToolResult \<times> event list" where
  "callTool api remote tr name args =
     (case callTool_try api remote tr name args of
        (Inr result, tr') \<Rightarrow> (result, tr')
      | (Inl error, tr') \<Rightarrow>
          (\<lparr>content_text =
              Some (''API error: '' @
                    (case error of NonError \<Rightarrow> ''Unknown error'' | _ \<Rightarrow> error_message error)),
            isError = True\<rparr>, tr'))"

section \<open>Startup and the server loop\<close>

text \<open>The arguments of one \<^verbatim>\<open>console.error\<close> call, and the observable state of the
  process after \<^verbatim>\<open>main()\<close>: what was written to standard error, the exit status if the
  process exited, and the gateway the handlers serve with if it did not.\<close>

datatype log_arg = LStr string | LExn exn

record process =
  stderr :: "log_arg list list"
  exit_code :: "nat option"
  serving :: "GumloopAPI option"

text \<open>\<^verbatim>\<open>main()\<close> with its \<^verbatim>\<open>.catch\<close>.  \<open>connect\<close> is what
  \<^verbatim>\<open>server.connect(transport)\<close> throws, if anything.\<close>

definition main :: "(string \<rightharpoonup> string) \<Rightarrow> exn option \<Rightarrow> process" where
  "main env connect =
     (case GumloopAPI_new env of
        Inl error \<Rightarrow>
          \<lparr>stderr = [[LStr ''Fatal error in main():'', LExn error]],
           exit_code = Some 1, serving = None\<rparr>
      | Inr api \<Rightarrow>
          (case connect of
             None \<Rightarrow> \<lparr>stderr = [], exit_code = None, serving = Some api\<rparr>
           | Some error \<Rightarrow>
               \<lparr>stderr = (case error of
                            NonError \<Rightarrow> [[LStr ''Failed to start server with unknown error'']]
                          | _ \<Rightarrow> [[LStr ''Failed to start server:'', LStr (error_message error)]]),
                exit_code = Some 1, serving = None\<rparr>))"

text \<open>
  Modelled from the spec: the dispatch loop itself is the MCP SDK's
  (\<^verbatim>\<open>Server\<close>, \<^verbatim>\<open>StdioServerTransport\<close>), not code of the repository.  Section 4.3:
  a single-threaded loop that, for each incoming "call tool" request in turn, runs the
  handler and emits its result.
\<close>

fun serve ::
  "GumloopAPI \<Rightarrow> remote \<Rightarrow> event list \<Rightarrow> (string \<times> jsval) list \<Rightarrow> ToolResult list \<times> event list" where
  "serve api remote tr [] = ([], tr)"
| "serve api remote tr (c # cs) =
     (case callTool api remote tr (fst c) (snd c) of
        (r, tr1) \<Rightarrow> (case serve api remote tr1 cs of (rs, tr2) \<Rightarrow> (r # rs, tr2)))"

section \<open>The advertised tools and the tables of the specification\<close>

text \<open>
  The \<^verbatim>\<open>inputSchema\<close> of a tool in \<^verbatim>\<open>TOOLS\<close> is a JSON Schema built from
  \<^verbatim>\<open>{type: "string"}\<close>, \<^verbatim>\<open>{type: "array", items}\<close> and
  \<^verbatim>\<open>{type: "object", properties, required}\<close> (descriptions left out).
\<close>

datatype jschema =
    SString
  | SArray jschema
  | SObject "(string \<times> jschema) list" "string list"

fun is_string :: "jsval \<Rightarrow> bool" where
  "is_string (JStr s) = True"
| "is_string _ = False"

text \<open>A value conforms to such a schema: it has the declared type, an object has every
  required property, and each declared property that is present conforms to its schema.\<close>

fun conforms :: "jschema \<Rightarrow> jsval \<Rightarrow> bool" where
  "conforms SString v = is_string v"
| "conforms (SArray items) v =
     (case v of JArr xs \<Rightarrow> (\<forall>x \<in> set xs. conforms items x) | _ \<Rightarrow> False)"
| "conforms (SObject properties required) v =
     (case v of
        JObj kvs \<Rightarrow>
          (\<forall>k \<in> set required. has_key v k) \<and>
          (\<forall>ps \<in> set properties. has_key v (fst ps) \<longrightarrow> conforms (snd ps) (get_prop v (fst ps)))
      | _ \<Rightarrow> False)"

definition startAutomation_inputSchema :: jschema where
  "startAutomation_inputSchema =
     SObject [(''user_id'', SString),
              (''saved_item_id'', SString),
              (''project_id'', SString),
              (''pipeline_inputs'',
                 SArray (SObject [(''input_name'', SString), (''value'', SString)]
                                 [''input_name'', ''value'']))]
             [''user_id'', ''saved_item_id'']"

definition retrieveRunDetails_inputSchema :: jschema where
  "retrieveRunDetails_inputSchema =
     SObject [(''run_id'', SString), (''user_id'', SString), (''project_id'', SString)]
             [''run_id'']"

definition listSavedFlows_inputSchema :: jschema where
  "listSavedFlows_inputSchema =
     SObject [(''user_id'', SString), (''project_id'', SString)] []"

definition listWorkbooks_inputSchema :: jschema where
  "listWorkbooks_inputSchema =
     SObject [(''user_id'', SString), (''project_id'', SString)] []"

definition retrieveInputSchema_inputSchema :: jschema where
  "retrieveInputSchema_inputSchema =
     SObject [(''saved_item_id'', SString), (''user_id'', SString), (''project_id'', SString)]
             [''saved_item_id'']"

definition uploadFile_inputSchema :: jschema where
  "uploadFile_inputSchema =
     SObject [(''file_name'', SString), (''file_content'', SString),
              (''user_id'', SString), (''project_id'', SString)]
             [''file_name'', ''file_content'']"

definition uploadMultipleFiles_inputSchema :: jschema where
  "uploadMultipleFiles_inputSchema =
     SObject [(''files'',
                 SArray (SObject [(''file_name'', SString), (''file_content'', SString)]
                                 [''file_name'', ''file_content''])),
              (''user_id'', SString), (''project_id'', SString)]
             [''files'']"

definition downloadFile_inputSchema :: jschema where
  "downloadFile_inputSchema =
     SObject [(''file_name'', SString), (''run_id'', SString), (''saved_item_id'', SString),
              (''user_id'', SString), (''project_id'', SString)]
             [''file_name'', ''run_id'', ''saved_item_id'']"

definition downloadMultipleFiles_inputSchema :: jschema where
  "downloadMultipleFiles_inputSchema =
     SObject [(''file_names'', SArray SString), (''run_id'', SString),
              (''user_id'', SString), (''project_id'', SString), (''saved_item_id'', SString)]
             [''file_names'', ''run_id'']"

text \<open>\<^verbatim>\<open>TOOLS\<close>: each tool name with its \<^verbatim>\<open>inputSchema\<close>.\<close>

definition TOOLS :: "(string \<times> jschema) list" where
  "TOOLS =
    [(''startAutomation'', startAutomation_inputSchema),
     (''retrieveRunDetails'', retrieveRunDetails_inputSchema),
     (''listSavedFlows'', listSavedFlows_inputSchema),
     (''listWorkbooks'', listWorkbooks_inputSchema),
     (''retrieveInputSchema'', retrieveInputSchema_inputSchema),
     (''uploadFile'', uploadFile_inputSchema),
     (''uploadMultipleFiles'', uploadMultipleFiles_inputSchema),
     (''downloadFile'', downloadFile_inputSchema),
     (''downloadMultipleFiles'', downloadMultipleFiles_inputSchema)]"

text \<open>The routing table of section 4.2 of the specification, in its words.\<close>

definition routing_table :: "(string \<times> http_method \<times> string) list" where
  "routing_table =
    [(''startAutomation'', POST, ''/start_pipeline''),
     (''retrieveRunDetails'', GET, ''/get_pl_run''),
     (''listSavedFlows'', GET, ''/list_saved_items''),
     (''listWorkbooks'', GET, ''/list_workbooks''),
     (''retrieveInputSchema'', GET, ''/get_inputs''),
     (''uploadFile'', POST, ''/upload_file''),
     (''uploadMultipleFiles'', POST, ''/upload_files''),
     (''downloadFile'', POST, ''/download_file''),
     (''downloadMultipleFiles'', POST, ''/download_files'')]"

text \<open>The tools that section 4.1 of the specification lists with the conditional
  constraint "user_id OR project_id required".\<close>

definition either_or_tools :: "string list" where
  "either_or_tools =
    [''retrieveRunDetails'', ''listSavedFlows'', ''listWorkbooks'', ''retrieveInputSchema'',
     ''uploadFile'', ''uploadMultipleFiles'', ''downloadMultipleFiles'']"

text \<open>The nine cases of the switch of the handler read as a table: the tool name, the
  schema its case parses the arguments with, and the method and endpoint of the gateway
  method its case calls.\<close>

definition switch_cases :: "(string \<times> zschema \<times> http_method \<times> string) list" where
  "switch_cases =
    [(''startAutomation'', StartAutomationSchema, POST, ''/start_pipeline''),
     (''retrieveRunDetails'', RetrieveRunDetailsSchema, GET, ''/get_pl_run''),
     (''listSavedFlows'', ListSavedFlowsSchema, GET, ''/list_saved_items''),
     (''listWorkbooks'', ListWorkbooksSchema, GET, ''/list_workbooks''),
     (''retrieveInputSchema'', RetrieveInputSchemaSchema, GET, ''/get_inputs''),
     (''uploadFile'', UploadFileSchema, POST, ''/upload_file''),
     (''uploadMultipleFiles'', UploadMultipleFilesSchema, POST, ''/upload_files''),
     (''downloadFile'', DownloadFileSchema, POST, ''/download_file''),
     (''downloadMultipleFiles'', DownloadMultipleFilesSchema, POST, ''/download_files'')]"

text \<open>What the case of a tool puts into the text of a successful result.\<close>

definition render_of :: "string \<Rightarrow> resp_value \<Rightarrow> string option" where
  "render_of name =
     (if name = ''downloadFile'' then (\<lambda>result. Some download_message)
      else if name = ''downloadMultipleFiles'' then (\<lambda>result. Some download_multiple_message)
      else stringify_result)"

text \<open>The object schema under a refinement.\<close>

fun object_of :: "zschema \<Rightarrow> zschema" where
  "object_of (ZRefine s check message) = s"
| "object_of s = s"

section \<open>Example inputs\<close>

text \<open>A gateway as the constructor builds it, and three remote responses: a failure, a
  JSON document and a binary payload.\<close>

definition example_api :: GumloopAPI where
  "example_api = \<lparr>baseUrl = ''https://api.gumloop.com/api/v1'', apiKey = ''secret''\<rparr>"

definition not_found :: response where
  "not_found =
     \<lparr>status = 404, statusText = ''Not Found'', content_type = Some ''text/plain'',
      json = Inl (Error ''Unexpected token''), arrayBuffer = Inr [110, 111]\<rparr>"

definition json_ok :: response where
  "json_ok =
     \<lparr>status = 200, statusText = ''OK'', content_type = Some ''application/json; charset=utf-8'',
      json = Inr (JObj [(''saved_items'', JArr [JStr ''flow456''])]), arrayBuffer = Inr []\<rparr>"


text \<open>Remote platforms that answer every request with one of these responses.\<close>

definition remote_not_found :: remote where
  "remote_not_found tr rq = Inr not_found"

definition remote_json_ok :: remote where
  "remote_json_ok tr rq = Inr json_ok"


text \<open>The JSON document again, its content type declared in another letter case.\<close>

definition json_ok_capitals :: response where
  "json_ok_capitals =
     \<lparr>status = 200, statusText = ''OK'', content_type = Some ''Application/JSON'',
      json = Inr (JObj [(''saved_items'', JArr [JStr ''flow456''])]),
      arrayBuffer = Inr [123, 34, 115, 97, 118, 101, 100, 95, 105, 116, 101, 109, 115, 34, 58,
                         91, 34, 102, 108, 111, 119, 52, 53, 54, 34, 93, 125]\<rparr>"

definition remote_json_ok_capitals :: remote where
  "remote_json_ok_capitals tr rq = Inr json_ok_capitals"

text \<open>A JSON document with numbers: \<^verbatim>\<open>{"saved_items": ["flow456"], "total": 1e21,
  "ratio": 1.5, "offset": -120}\<close>.\<close>

definition numbers_document :: jsval where
  "numbers_document =
     JObj [(''saved_items'', JArr [JStr ''flow456'']),
           (''total'', JNum (Finite False 1 21)),
           (''ratio'', JNum (Finite False 15 (- 1))),
           (''offset'', JNum (Finite True 12 1))]"

definition json_ok_numbers :: response where
  "json_ok_numbers =
     \<lparr>status = 200, statusText = ''OK'', content_type = Some ''application/json'',
      json = Inr numbers_document, arrayBuffer = Inr []\<rparr>"

definition remote_json_ok_numbers :: remote where
  "remote_json_ok_numbers tr rq = Inr json_ok_numbers"

section \<open>Properties of schema validation\<close>

lemma those_eq_None: "those xs = None \<longleftrightarrow> None \<in> set xs"
  by (induction xs) (auto split: option.splits)

lemma those_eq_Some: "those xs = Some ys \<longleftrightarrow> xs = map Some ys"
  by (induction xs arbitrary: ys) (auto split: option.splits)

declare zparse.simps [simp del]

lemma zparse_ZString:
  "zparse ZString p v = (if is_string v then ([], Some v) else ([invalid_type ''string'' v p], None))"
  by (cases v) (simp_all add: zparse.simps)

lemma zparse_optional_string:
  "zparse (ZOptional ZString) p v =
     (if v = JUndefined \<or> is_string v then ([], Some v) else ([invalid_type ''string'' v p], None))"
  by (cases v) (simp_all add: zparse.simps)

lemma zparse_object_not_object:
  "\<forall>kvs. v \<noteq> JObj kvs \<Longrightarrow> zparse (ZObject shape) p v = ([invalid_type ''object'' v p], None)"
  by (cases v) (simp_all add: zparse.simps)

lemma zparse_array_not_array:
  "\<forall>xs. v \<noteq> JArr xs \<Longrightarrow> zparse (ZArray s) p v = ([invalid_type ''array'' v p], None)"
  by (cases v) (simp_all add: zparse.simps)

lemma zparse_array_JArr:
  "zparse (ZArray s) p (JArr xs) =
     (concat (map (\<lambda>ix. fst (zparse s (p @ [JNum (Number_of_nat (fst ix))]) (snd ix))) (enumerate 0 xs)),
      map_option JArr
        (those (map (\<lambda>ix. snd (zparse s (p @ [JNum (Number_of_nat (fst ix))]) (snd ix))) (enumerate 0 xs))))"
  by (simp add: zparse.simps Let_def comp_def)

lemma zparse_object_JObj:
  "zparse (ZObject shape) p (JObj kvs) =
     (concat (map (\<lambda>ks. fst (zparse (snd ks) (p @ [JStr (fst ks)]) (get_prop (JObj kvs) (fst ks)))) shape),
      map_option
        (\<lambda>vals. JObj (filter (\<lambda>kx. snd kx \<noteq> JUndefined \<or> has_key (JObj kvs) (fst kx))
                              (zip (map fst shape) vals)))
        (those (map (\<lambda>ks. snd (zparse (snd ks) (p @ [JStr (fst ks)]) (get_prop (JObj kvs) (fst ks)))) shape)))"
  by (simp add: zparse.simps Let_def comp_def del: get_prop.simps has_key.simps)

lemma zparse_array_valid:
  assumes "\<And>x q. x \<in> set xs \<Longrightarrow> \<exists>y. zparse s q x = ([], Some y)"
  shows "\<exists>ys. zparse (ZArray s) p (JArr xs) = ([], Some (JArr ys))"
proof -
  let ?f = "\<lambda>ix. zparse s (p @ [JNum (Number_of_nat (fst ix))]) (snd ix)"
  have each: "\<exists>y. ?f ix = ([], Some y)" if "ix \<in> set (enumerate 0 xs)" for ix
  proof -
    from that have "fst ix < length xs" "xs ! fst ix = snd ix" by (auto simp: in_set_enumerate_eq)
    then have "snd ix \<in> set xs" using nth_mem by metis
    then show ?thesis by (rule assms)
  qed
  have "\<forall>ix \<in> set (enumerate 0 xs). fst (?f ix) = []"
    using each by fastforce
  then have c: "concat (map (\<lambda>ix. fst (?f ix)) (enumerate 0 xs)) = []"
    by simp
  have "\<forall>ix \<in> set (enumerate 0 xs). snd (?f ix) \<noteq> None"
    using each by fastforce
  then have "None \<notin> set (map (\<lambda>ix. snd (?f ix)) (enumerate 0 xs))"
    by force
  then obtain ys where "those (map (\<lambda>ix. snd (?f ix)) (enumerate 0 xs)) = Some ys"
    using those_eq_None by fastforce
  with c show ?thesis
    by (simp add: zparse_array_JArr)
qed

lemma lookup_filtered:
  assumes "distinct (map fst kvs)" and "map_of kvs key = Some val"
  shows "map_of (filter Q kvs) key = (if Q (key, val) then Some val else None)"
  using assms
proof (induction kvs)
  case Nil
  then show ?case by simp
next
  case (Cons kv kvs)
  show ?case
  proof (cases "fst kv = key")
    case True
    with Cons.prems have "snd kv = val" and "key \<notin> fst ` set kvs"
      by auto
    then have "map_of (filter Q kvs) key = None"
      by (auto simp: map_of_eq_None_iff)
    with True \<open>snd kv = val\<close> show ?thesis
      by (cases kv) auto
  next
    case False
    with Cons show ?thesis by (cases kv) auto
  qed
qed

lemma zparse_object_SomeD:
  assumes "zparse (ZObject shape) p v = (iss, Some x)"
  obtains kvs vals where "v = JObj kvs"
    and "map (\<lambda>ks. snd (zparse (snd ks) (p @ [JStr (fst ks)]) (get_prop v (fst ks)))) shape = map Some vals"
    and "iss = concat (map (\<lambda>ks. fst (zparse (snd ks) (p @ [JStr (fst ks)]) (get_prop v (fst ks)))) shape)"
    and "x = JObj (filter (\<lambda>kx. snd kx \<noteq> JUndefined \<or> has_key v (fst kx)) (zip (map fst shape) vals))"
proof -
  from assms obtain kvs where v: "v = JObj kvs"
    using zparse_object_not_object[of v shape p] by auto
  from assms[unfolded v zparse_object_JObj] obtain vals where
    "those (map (\<lambda>ks. snd (zparse (snd ks) (p @ [JStr (fst ks)]) (get_prop (JObj kvs) (fst ks)))) shape) = Some vals"
    "iss = concat (map (\<lambda>ks. fst (zparse (snd ks) (p @ [JStr (fst ks)]) (get_prop (JObj kvs) (fst ks)))) shape)"
    "x = JObj (filter (\<lambda>kx. snd kx \<noteq> JUndefined \<or> has_key (JObj kvs) (fst kx)) (zip (map fst shape) vals))"
    by (auto simp del: get_prop.simps has_key.simps)
  then show ?thesis
    using v that[of kvs vals] by (simp add: those_eq_Some del: get_prop.simps has_key.simps)
qed

lemma zparse_object_field:
  assumes ok: "zparse (ZObject shape) p v = (iss, Some x)"
    and d: "distinct (map fst shape)" and mem: "(k, s) \<in> set shape"
  shows "snd (zparse s (p @ [JStr k]) (get_prop v k)) = Some (get_prop x k)"
    and "set (fst (zparse s (p @ [JStr k]) (get_prop v k))) \<subseteq> set iss"
proof -
  let ?f = "\<lambda>ks. zparse (snd ks) (p @ [JStr (fst ks)]) (get_prop v (fst ks))"
  from ok obtain kvs vals where v: "v = JObj kvs"
    and vals: "map (\<lambda>ks. snd (?f ks)) shape = map Some vals"
    and iss: "iss = concat (map (\<lambda>ks. fst (?f ks)) shape)"
    and x: "x = JObj (filter (\<lambda>kx. snd kx \<noteq> JUndefined \<or> has_key v (fst kx)) (zip (map fst shape) vals))"
    by (rule zparse_object_SomeD)
  from mem obtain i where i: "i < length shape" "shape ! i = (k, s)"
    by (auto simp: in_set_conv_nth)
  have len: "length vals = length shape"
    using arg_cong[OF vals, of length] by simp
  have "map (\<lambda>ks. snd (?f ks)) shape ! i = map Some vals ! i"
    using vals by simp
  then have vi: "snd (zparse s (p @ [JStr k]) (get_prop v k)) = Some (vals ! i)"
    using i len by simp
  have dz: "distinct (map fst (zip (map fst shape) vals))"
    using d len by (simp add: map_fst_zip)
  have "(k, vals ! i) \<in> set (zip (map fst shape) vals)"
    using i len by (auto simp: in_set_zip intro!: exI[of _ i])
  then have mo: "map_of (zip (map fst shape) vals) k = Some (vals ! i)"
    using dz by simp
  have "get_prop x k = vals ! i"
    unfolding x by (simp add: lookup_filtered[OF dz mo] del: has_key.simps)
  with vi show "snd (zparse s (p @ [JStr k]) (get_prop v k)) = Some (get_prop x k)" by simp
  have "fst (?f (k, s)) \<in> set (map (\<lambda>ks. fst (?f ks)) shape)"
    using mem by (simp add: image_iff del: get_prop.simps) (rule bexI[of _ "(k, s)"], simp_all)
  then show "set (fst (zparse s (p @ [JStr k]) (get_prop v k))) \<subseteq> set iss"
    unfolding iss by (auto simp del: get_prop.simps)
qed

lemma zparse_object_valid:
  assumes "\<And>k s. (k, s) \<in> set shape \<Longrightarrow> \<exists>y. zparse s (p @ [JStr k]) (get_prop (JObj kvs) k) = ([], Some y)"
  shows "\<exists>x. zparse (ZObject shape) p (JObj kvs) = ([], Some x)"
proof -
  let ?v = "JObj kvs"
  let ?f = "\<lambda>ks. zparse (snd ks) (p @ [JStr (fst ks)]) (get_prop ?v (fst ks))"
  have each: "\<exists>y. ?f ks = ([], Some y)" if "ks \<in> set shape" for ks
    using that assms[of "fst ks" "snd ks"] by simp
  have "\<forall>ks \<in> set shape. fst (?f ks) = []"
    using each by fastforce
  then have c: "concat (map (\<lambda>ks. fst (?f ks)) shape) = []"
    by (simp del: get_prop.simps)
  have "\<forall>ks \<in> set shape. snd (?f ks) \<noteq> None"
    using each by fastforce
  then have "None \<notin> set (map (\<lambda>ks. snd (?f ks)) shape)"
    by (force simp del: get_prop.simps)
  then obtain ys where "those (map (\<lambda>ks. snd (?f ks)) shape) = Some ys"
    using those_eq_None by fastforce
  with c show ?thesis
    by (simp add: zparse_object_JObj del: get_prop.simps has_key.simps)
qed

lemma zparse_object_abort:
  assumes "(k, s) \<in> set shape" and "snd (zparse s (p @ [JStr k]) (get_prop (JObj kvs) k)) = None"
  shows "\<exists>iss. zparse (ZObject shape) p (JObj kvs) = (iss, None)
           \<and> set (fst (zparse s (p @ [JStr k]) (get_prop (JObj kvs) k))) \<subseteq> set iss"
proof -
  let ?v = "JObj kvs"
  let ?f = "\<lambda>ks. zparse (snd ks) (p @ [JStr (fst ks)]) (get_prop ?v (fst ks))"
  have "snd (?f (k, s)) = None" using assms(2) by simp
  then have "None \<in> set (map (\<lambda>ks. snd (?f ks)) shape)"
    using assms(1) by (simp add: image_iff del: get_prop.simps) (metis fst_conv snd_conv)
  then have t: "those (map (\<lambda>ks. snd (?f ks)) shape) = None"
    by (simp only: those_eq_None)
  have "fst (?f (k, s)) \<in> set (map (\<lambda>ks. fst (?f ks)) shape)"
    using assms(1) by (simp add: image_iff del: get_prop.simps) (rule bexI[of _ "(k, s)"], simp_all)
  then have "set (fst (?f (k, s))) \<subseteq> set (concat (map (\<lambda>ks. fst (?f ks)) shape))"
    by (auto simp del: get_prop.simps)
  with t show ?thesis
    by (simp add: zparse_object_JObj del: get_prop.simps has_key.simps)
qed

lemma zparse_aborted_issues: "zparse s p v = (iss, None) \<Longrightarrow> iss \<noteq> []"
proof (induction s p v arbitrary: iss rule: zparse.induct)
  case (1 path v)
  then show ?case by (auto simp: zparse.simps split: jsval.splits)
next
  case (2 s path v)
  then show ?case by (auto simp: zparse.simps split: if_splits)
next
  case (3 s path v)
  show ?case
  proof (cases v)
    case (JArr xs)
    let ?results = "map (\<lambda>ix. zparse s (path @ [JNum (Number_of_nat (fst ix))]) (snd ix)) (enumerate 0 xs)"
    from 3(2) JArr have iss: "iss = concat (map fst ?results)" and ab: "those (map snd ?results) = None"
      by (auto simp: zparse.simps Let_def)
    from ab obtain ix where ix: "ix \<in> set (enumerate 0 xs)"
      and n: "snd (zparse s (path @ [JNum (Number_of_nat (fst ix))]) (snd ix)) = None"
      by (auto simp: those_eq_None image_iff)
    then have "fst (zparse s (path @ [JNum (Number_of_nat (fst ix))]) (snd ix)) \<noteq> []"
      using 3(1)[OF JArr ix] by (metis prod.collapse)
    with ix show ?thesis unfolding iss by auto
  qed (use 3(2) in \<open>auto simp: zparse.simps\<close>)
next
  case (4 shape path v)
  show ?case
  proof (cases v)
    case (JObj kvs)
    let ?pairs = "map (\<lambda>ks. (fst ks, zparse (snd ks) (path @ [JStr (fst ks)]) (get_prop v (fst ks)))) shape"
    from 4(2) JObj have iss: "iss = concat (map (\<lambda>p. fst (snd p)) ?pairs)"
       and ab: "those (map (\<lambda>p. snd (snd p)) ?pairs) = None"
      by (auto simp: zparse.simps Let_def)
    from ab obtain ks where ks: "ks \<in> set shape"
      and n: "snd (zparse (snd ks) (path @ [JStr (fst ks)]) (get_prop v (fst ks))) = None"
      by (auto simp: those_eq_None image_iff)
    then have "fst (zparse (snd ks) (path @ [JStr (fst ks)]) (get_prop v (fst ks))) \<noteq> []"
      using 4(1)[OF JObj ks] by (metis prod.collapse)
    with ks show ?thesis unfolding iss by auto
  qed (use 4(2) in \<open>auto simp: zparse.simps\<close>)
next
  case (5 s check message path v)
  then show ?case by (auto simp: zparse.simps split: prod.splits option.splits if_splits)
qed

lemma parse_refine:
  "parse (ZRefine s chk msg) v =
     (case zparse s [] v of
        (iss, None) \<Rightarrow> Inl (ZodError iss)
      | (iss, Some x) \<Rightarrow>
          if chk x then (if iss = [] then Inr x else Inl (ZodError iss))
          else Inl (ZodError (iss @ [Custom msg []])))"
  by (simp add: parse_def zparse.simps split: prod.splits option.splits)

lemma zparse_object_result_object:
  assumes "zparse (ZObject shape) p v = (iss, Some x)"
  shows "\<exists>kvs'. x = JObj kvs'"
  using assms by (rule zparse_object_SomeD) simp

lemma not_has_key_undefined: "\<not> has_key v k \<Longrightarrow> get_prop v k = JUndefined"
  by (cases v) auto

text \<open>A field declared \<^verbatim>\<open>z.string().optional()\<close> is returned as it was given.\<close>

lemma zparse_object_optional_string_field:
  assumes "zparse (ZObject shape) p v = (iss, Some x)"
    and "distinct (map fst shape)" and "(k, ZOptional ZString) \<in> set shape"
  shows "get_prop x k = get_prop v k"
    and "get_prop v k = JUndefined \<or> is_string (get_prop v k)"
  using zparse_object_field(1)[OF assms]
  by (auto simp: zparse_optional_string split: if_splits)

lemma zparse_object_string_field:
  assumes "zparse (ZObject shape) p v = (iss, Some x)"
    and "distinct (map fst shape)" and "(k, ZString) \<in> set shape"
  shows "get_prop x k = get_prop v k" and "is_string (get_prop v k)"
  using zparse_object_field(1)[OF assms]
  by (auto simp: zparse_ZString split: if_splits)

lemma user_or_project_validated:
  assumes "zparse (ZObject shape) p v = (iss, Some x)"
    and "distinct (map fst shape)"
    and "(''user_id'', ZOptional ZString) \<in> set shape"
    and "(''project_id'', ZOptional ZString) \<in> set shape"
  shows "user_or_project x = user_or_project v"
  using zparse_object_optional_string_field(1)[OF assms(1,2,3)]
        zparse_object_optional_string_field(1)[OF assms(1,2,4)]
  by (simp add: user_or_project_def)

lemma either_or_rejects:
  assumes d: "distinct (map fst shape)"
    and u: "(''user_id'', ZOptional ZString) \<in> set shape"
    and pr: "(''project_id'', ZOptional ZString) \<in> set shape"
    and f: "\<not> user_or_project v"
  shows "\<exists>iss. iss \<noteq> [] \<and>
           parse (ZRefine (ZObject shape) user_or_project either_message) v = Inl (ZodError iss) \<and>
           ((\<exists>x. zparse (ZObject shape) [] v = ([], Some x)) \<longrightarrow> iss = [Custom either_message []])"
proof (cases "zparse (ZObject shape) [] v")
  case (Pair iss r)
  show ?thesis
  proof (cases r)
    case None
    with Pair have "iss \<noteq> []" by (auto dest: zparse_aborted_issues)
    with Pair None show ?thesis by (simp add: parse_refine)
  next
    case (Some x)
    with Pair have "user_or_project x = user_or_project v"
      using user_or_project_validated[OF _ d u pr] by blast
    with f Pair Some show ?thesis by (simp add: parse_refine)
  qed
qed

lemma either_or_accepts:
  assumes d: "distinct (map fst shape)"
    and u: "(''user_id'', ZOptional ZString) \<in> set shape"
    and pr: "(''project_id'', ZOptional ZString) \<in> set shape"
    and t: "user_or_project v"
    and z: "zparse (ZObject shape) [] v = ([], Some x)"
  shows "parse (ZRefine (ZObject shape) user_or_project either_message) v = Inr x"
    and "user_or_project x"
  using user_or_project_validated[OF z d u pr] t z by (simp_all add: parse_refine)

text \<open>Fields of conforming arguments.\<close>

lemma required_string_field:
  assumes "has_key v k" and "has_key v k \<longrightarrow> conforms SString (get_prop v k)"
  shows "\<exists>y. zparse ZString q (get_prop v k) = ([], Some y)"
  using assms by (simp add: zparse_ZString)

lemma optional_string_field:
  assumes "has_key v k \<longrightarrow> conforms SString (get_prop v k)"
  shows "\<exists>y. zparse (ZOptional ZString) q (get_prop v k) = ([], Some y)"
  using assms not_has_key_undefined[of v k] by (auto simp: zparse_optional_string)

lemma optional_field:
  assumes "has_key v k \<Longrightarrow> \<exists>y. zparse s q (get_prop v k) = ([], Some y)"
  shows "\<exists>y. zparse (ZOptional s) q (get_prop v k) = ([], Some y)"
  using assms not_has_key_undefined[of v k] by (cases "has_key v k") (auto simp: zparse.simps)

lemma string_array_field:
  assumes "conforms (SArray SString) a"
  shows "\<exists>y. zparse (ZArray ZString) q a = ([], Some y)"
proof -
  from assms obtain xs where a: "a = JArr xs" and all: "\<forall>x \<in> set xs. is_string x"
    by (cases a) auto
  have "\<exists>ys. zparse (ZArray ZString) q (JArr xs) = ([], Some (JArr ys))"
    by (rule zparse_array_valid) (use all in \<open>simp add: zparse_ZString\<close>)
  with a show ?thesis by blast
qed

lemma two_string_object:
  assumes "conforms (SObject [(k1, SString), (k2, SString)] [k1, k2]) v"
  shows "\<exists>y. zparse (ZObject [(k1, ZString), (k2, ZString)]) q v = ([], Some y)"
proof -
  from assms obtain kvs where v: "v = JObj kvs" by (cases v) auto
  show ?thesis unfolding v
    by (rule zparse_object_valid)
       (use assms v in \<open>auto simp: zparse_ZString simp del: get_prop.simps has_key.simps\<close>)
qed

lemma object_array_field:
  assumes "conforms (SArray (SObject [(k1, SString), (k2, SString)] [k1, k2])) a"
  shows "\<exists>y. zparse (ZArray (ZObject [(k1, ZString), (k2, ZString)])) q a = ([], Some y)"
proof -
  from assms obtain xs where a: "a = JArr xs"
    and all: "\<forall>x \<in> set xs. conforms (SObject [(k1, SString), (k2, SString)] [k1, k2]) x"
    by (cases a) auto
  have "\<exists>ys. zparse (ZArray (ZObject [(k1, ZString), (k2, ZString)])) q (JArr xs) = ([], Some (JArr ys))"
    by (rule zparse_array_valid) (use all two_string_object in blast)
  with a show ?thesis by blast
qed

lemma conforms_object: "conforms (SObject ps req) v \<Longrightarrow> \<exists>kvs. v = JObj kvs"
  by (cases v) auto

lemma conforms_objectD:
  assumes "conforms (SObject ps req) v"
  shows "k \<in> set req \<Longrightarrow> has_key v k"
    and "(k, js) \<in> set ps \<Longrightarrow> has_key v k \<longrightarrow> conforms js (get_prop v k)"
  using assms by (cases v; fastforce simp del: get_prop.simps has_key.simps)+

lemma conforming_object_valid:
  assumes c: "conforms (SObject ps req) v"
    and f: "\<And>k s. (k, s) \<in> set shape \<Longrightarrow>
              (s = ZString \<and> k \<in> set req \<and> (k, SString) \<in> set ps) \<or>
              (s = ZOptional ZString \<and> (k, SString) \<in> set ps) \<or>
              (s = ZArray ZString \<and> k \<in> set req \<and> (k, SArray SString) \<in> set ps) \<or>
              (\<exists>k1 k2. s = ZArray (ZObject [(k1, ZString), (k2, ZString)]) \<and> k \<in> set req \<and>
                  (k, SArray (SObject [(k1, SString), (k2, SString)] [k1, k2])) \<in> set ps) \<or>
              (\<exists>k1 k2. s = ZOptional (ZArray (ZObject [(k1, ZString), (k2, ZString)])) \<and>
                  (k, SArray (SObject [(k1, SString), (k2, SString)] [k1, k2])) \<in> set ps)"
  shows "\<exists>x. zparse (ZObject shape) q v = ([], Some x)"
proof -
  from c obtain kvs where v: "v = JObj kvs" using conforms_object by blast
  note D = conforms_objectD[OF c]
  have "\<exists>y. zparse s (q @ [JStr k]) (get_prop v k) = ([], Some y)" if "(k, s) \<in> set shape" for k s
    using f[OF that]
  proof (elim disjE conjE exE)
    assume "s = ZString" "k \<in> set req" "(k, SString) \<in> set ps"
    then show ?thesis using D(1)[of k] D(2)[of k SString] required_string_field by blast
  next
    assume "s = ZOptional ZString" "(k, SString) \<in> set ps"
    then show ?thesis using D(2)[of k SString] optional_string_field by blast
  next
    assume "s = ZArray ZString" "k \<in> set req" "(k, SArray SString) \<in> set ps"
    then show ?thesis using D(1)[of k] D(2)[of k "SArray SString"] string_array_field by blast
  next
    fix k1 k2
    assume "s = ZArray (ZObject [(k1, ZString), (k2, ZString)])" "k \<in> set req"
      "(k, SArray (SObject [(k1, SString), (k2, SString)] [k1, k2])) \<in> set ps"
    then show ?thesis
      using D(1)[of k] D(2)[of k "SArray (SObject [(k1, SString), (k2, SString)] [k1, k2])"]
        object_array_field by blast
  next
    fix k1 k2
    assume s: "s = ZOptional (ZArray (ZObject [(k1, ZString), (k2, ZString)]))"
      and "(k, SArray (SObject [(k1, SString), (k2, SString)] [k1, k2])) \<in> set ps"
    then have "has_key v k \<Longrightarrow> \<exists>y. zparse (ZArray (ZObject [(k1, ZString), (k2, ZString)])) (q @ [JStr k]) (get_prop v k) = ([], Some y)"
      using D(2)[of k "SArray (SObject [(k1, SString), (k2, SString)] [k1, k2])"]
        object_array_field by blast
    then show ?thesis unfolding s by (rule optional_field)
  qed
  then show ?thesis unfolding v by (rule zparse_object_valid)
qed



lemma switch_cases_iff:
  "(name, schema, m, e) \<in> set switch_cases \<longleftrightarrow>
     name = ''startAutomation'' \<and> schema = StartAutomationSchema \<and> m = POST \<and> e = ''/start_pipeline''
   \<or> name = ''retrieveRunDetails'' \<and> schema = RetrieveRunDetailsSchema \<and> m = GET \<and> e = ''/get_pl_run''
   \<or> name = ''listSavedFlows'' \<and> schema = ListSavedFlowsSchema \<and> m = GET \<and> e = ''/list_saved_items''
   \<or> name = ''listWorkbooks'' \<and> schema = ListWorkbooksSchema \<and> m = GET \<and> e = ''/list_workbooks''
   \<or> name = ''retrieveInputSchema'' \<and> schema = RetrieveInputSchemaSchema \<and> m = GET \<and> e = ''/get_inputs''
   \<or> name = ''uploadFile'' \<and> schema = UploadFileSchema \<and> m = POST \<and> e = ''/upload_file''
   \<or> name = ''uploadMultipleFiles'' \<and> schema = UploadMultipleFilesSchema \<and> m = POST \<and> e = ''/upload_files''
   \<or> name = ''downloadFile'' \<and> schema = DownloadFileSchema \<and> m = POST \<and> e = ''/download_file''
   \<or> name = ''downloadMultipleFiles'' \<and> schema = DownloadMultipleFilesSchema \<and> m = POST \<and> e = ''/download_files''"
  unfolding switch_cases_def by (simp only: set_simps insert_iff empty_iff prod.inject simp_thms)


lemma valid_startAutomation:
  assumes "conforms startAutomation_inputSchema args"
  shows "\<exists>x. zparse (object_of StartAutomationSchema) [] args = ([], Some x)"
  using assms unfolding StartAutomationSchema_def startAutomation_inputSchema_def object_of.simps
  by (rule conforming_object_valid) auto

lemma valid_retrieveRunDetails:
  assumes "conforms retrieveRunDetails_inputSchema args"
  shows "\<exists>x. zparse (object_of RetrieveRunDetailsSchema) [] args = ([], Some x)"
  using assms unfolding RetrieveRunDetailsSchema_def retrieveRunDetails_inputSchema_def object_of.simps
  by (rule conforming_object_valid) auto

lemma valid_listSavedFlows:
  assumes "conforms listSavedFlows_inputSchema args"
  shows "\<exists>x. zparse (object_of ListSavedFlowsSchema) [] args = ([], Some x)"
  using assms unfolding ListSavedFlowsSchema_def listSavedFlows_inputSchema_def object_of.simps
  by (rule conforming_object_valid) auto

lemma valid_listWorkbooks:
  assumes "conforms listWorkbooks_inputSchema args"
  shows "\<exists>x. zparse (object_of ListWorkbooksSchema) [] args = ([], Some x)"
  using assms unfolding ListWorkbooksSchema_def listWorkbooks_inputSchema_def object_of.simps
  by (rule conforming_object_valid) auto

lemma valid_retrieveInputSchema:
  assumes "conforms retrieveInputSchema_inputSchema args"
  shows "\<exists>x. zparse (object_of RetrieveInputSchemaSchema) [] args = ([], Some x)"
  using assms unfolding RetrieveInputSchemaSchema_def retrieveInputSchema_inputSchema_def object_of.simps
  by (rule conforming_object_valid) auto

lemma valid_uploadFile:
  assumes "conforms uploadFile_inputSchema args"
  shows "\<exists>x. zparse (object_of UploadFileSchema) [] args = ([], Some x)"
  using assms unfolding UploadFileSchema_def uploadFile_inputSchema_def object_of.simps
  by (rule conforming_object_valid) auto

lemma valid_uploadMultipleFiles:
  assumes "conforms uploadMultipleFiles_inputSchema args"
  shows "\<exists>x. zparse (object_of UploadMultipleFilesSchema) [] args = ([], Some x)"
  using assms unfolding UploadMultipleFilesSchema_def uploadMultipleFiles_inputSchema_def object_of.simps
  by (rule conforming_object_valid) auto

lemma valid_downloadFile:
  assumes "conforms downloadFile_inputSchema args"
  shows "\<exists>x. zparse (object_of DownloadFileSchema) [] args = ([], Some x)"
  using assms unfolding DownloadFileSchema_def downloadFile_inputSchema_def object_of.simps
  by (rule conforming_object_valid) auto

lemma valid_downloadMultipleFiles:
  assumes "conforms downloadMultipleFiles_inputSchema args"
  shows "\<exists>x. zparse (object_of DownloadMultipleFilesSchema) [] args = ([], Some x)"
  using assms unfolding DownloadMultipleFilesSchema_def downloadMultipleFiles_inputSchema_def object_of.simps
  by (rule conforming_object_valid) auto

lemma conforming_valid:
  assumes "(name, schema, m, e) \<in> set switch_cases"
    and "map_of TOOLS name = Some js" and "conforms js args"
  shows "\<exists>x. zparse (object_of schema) [] args = ([], Some x)"
  using assms(1) unfolding switch_cases_iff
proof (elim disjE conjE)
  assume "name = ''startAutomation''" "schema = StartAutomationSchema"
  with assms(2,3) show ?thesis
    by (simp add: TOOLS_def valid_startAutomation)
next
  assume "name = ''retrieveRunDetails''" "schema = RetrieveRunDetailsSchema"
  with assms(2,3) show ?thesis
    by (simp add: TOOLS_def valid_retrieveRunDetails)
next
  assume "name = ''listSavedFlows''" "schema = ListSavedFlowsSchema"
  with assms(2,3) show ?thesis
    by (simp add: TOOLS_def valid_listSavedFlows)
next
  assume "name = ''listWorkbooks''" "schema = ListWorkbooksSchema"
  with assms(2,3) show ?thesis
    by (simp add: TOOLS_def valid_listWorkbooks)
next
  assume "name = ''retrieveInputSchema''" "schema = RetrieveInputSchemaSchema"
  with assms(2,3) show ?thesis
    by (simp add: TOOLS_def valid_retrieveInputSchema)
next
  assume "name = ''uploadFile''" "schema = UploadFileSchema"
  with assms(2,3) show ?thesis
    by (simp add: TOOLS_def valid_uploadFile)
next
  assume "name = ''uploadMultipleFiles''" "schema = UploadMultipleFilesSchema"
  with assms(2,3) show ?thesis
    by (simp add: TOOLS_def valid_uploadMultipleFiles)
next
  assume "name = ''downloadFile''" "schema = DownloadFileSchema"
  with assms(2,3) show ?thesis
    by (simp add: TOOLS_def valid_downloadFile)
next
  assume "name = ''downloadMultipleFiles''" "schema = DownloadMultipleFilesSchema"
  with assms(2,3) show ?thesis
    by (simp add: TOOLS_def valid_downloadMultipleFiles)
qed

section \<open>Properties of the gateway\<close>

lemma build_request_POST:
  "truthy data \<Longrightarrow>
   build_request api e POST data =
     \<lparr>req_url = baseUrl api @ e, req_method = POST,
      req_headers = [(''Authorization'', ''Bearer '' @ apiKey api),
                     (''Content-Type'', ''application/json'')],
      req_body = JSON_stringify data\<rparr>"
  by (simp add: build_request_def)

lemma build_request_GET:
  "truthy data \<Longrightarrow>
   build_request api e GET data =
     \<lparr>req_url = (if URLSearchParams_toString (query_params data) \<noteq> []
                 then baseUrl api @ e @ ''?'' @ URLSearchParams_toString (query_params data)
                 else baseUrl api @ e),
      req_method = GET,
      req_headers = [(''Authorization'', ''Bearer '' @ apiKey api),
                     (''Content-Type'', ''application/json'')],
      req_body = None\<rparr>"
  by (simp add: build_request_def Let_def)

lemma req_method_build_request [simp]: "req_method (build_request api e m data) = m"
  by (simp add: build_request_def Let_def)

lemma join_nonempty: "xs \<noteq> [] \<Longrightarrow> hd xs \<noteq> [] \<Longrightarrow> join sep xs \<noteq> []"
  by (induction sep xs rule: join.induct) auto

lemma URLSearchParams_toString_nonempty:
  "ps \<noteq> [] \<Longrightarrow> URLSearchParams_toString ps \<noteq> []"
  unfolding URLSearchParams_toString_def
  by (rule join_nonempty) (simp_all add: hd_map)

lemma query_params_nonempty:
  assumes "truthy (get_prop (JObj kvs) k)"
  shows "query_params (JObj kvs) \<noteq> []"
proof -
  from assms obtain v where v: "map_of kvs k = Some v" "truthy v"
    by (auto split: option.splits)
  then have "(k, v) \<in> set kvs" by (simp add: map_of_SomeD)
  moreover from v have "v \<noteq> JUndefined \<and> v \<noteq> JNull" by auto
  ultimately have "(k, v) \<in> set (filter (\<lambda>kv. snd kv \<noteq> JUndefined \<and> snd kv \<noteq> JNull) kvs)"
    by simp
  then have "filter (\<lambda>kv. snd kv \<noteq> JUndefined \<and> snd kv \<noteq> JNull) kvs \<noteq> []"
    by (metis empty_iff empty_set)
  then show ?thesis
    by (simp add: query_params_def)
qed

lemma user_or_project_query:
  assumes "user_or_project (JObj kvs)"
  shows "URLSearchParams_toString (query_params (JObj kvs)) \<noteq> []"
proof -
  from assms have "truthy (get_prop (JObj kvs) ''user_id'') \<or> truthy (get_prop (JObj kvs) ''project_id'')"
    by (auto simp: user_or_project_def js_or_def split: if_splits)
  then have "query_params (JObj kvs) \<noteq> []"
    using query_params_nonempty by blast
  then show ?thesis by (rule URLSearchParams_toString_nonempty)
qed

lemma makeRequest_rejected:
  "remote tr (build_request api e m data) = Inl err \<Longrightarrow>
   makeRequest api remote tr e m data = (Inl err, tr @ [Fetch (build_request api e m data)])"
  by (simp add: makeRequest_def Let_def)

lemma makeRequest_not_ok:
  "remote tr (build_request api e m data) = Inr r \<Longrightarrow> \<not> ok r \<Longrightarrow>
   makeRequest api remote tr e m data =
     (Inl (Error (''Gumloop API request failed: '' @ show_nat (status r) @ '' - '' @ statusText r)),
      tr @ [Fetch (build_request api e m data)])"
  by (simp add: makeRequest_def Let_def)

lemma makeRequest_json:
  "remote tr (build_request api e m data) = Inr r \<Longrightarrow> ok r \<Longrightarrow> is_json_response r \<Longrightarrow>
   makeRequest api remote tr e m data =
     (map_sum id RJson (json r), tr @ [Fetch (build_request api e m data), ReadJson])"
  by (simp add: makeRequest_def Let_def)

lemma makeRequest_binary:
  "remote tr (build_request api e m data) = Inr r \<Longrightarrow> ok r \<Longrightarrow> \<not> is_json_response r \<Longrightarrow>
   makeRequest api remote tr e m data =
     (map_sum id RBinary (arrayBuffer r), tr @ [Fetch (build_request api e m data), ReadArrayBuffer])"
  by (simp add: makeRequest_def Let_def)

lemma makeRequest_trace:
  "\<exists>rest. snd (makeRequest api remote tr e m data) = tr @ Fetch (build_request api e m data) # rest
      \<and> (rest = [] \<or> rest = [ReadJson] \<or> rest = [ReadArrayBuffer])"
  by (simp add: makeRequest_def Let_def split: sum.splits)

lemma lt16_cases:
  assumes "(d::nat) < 16"
  obtains "d = 0" | "d = 1" | "d = 2" | "d = 3" | "d = 4" | "d = 5" | "d = 6" | "d = 7"
    | "d = 8" | "d = 9" | "d = 10" | "d = 11" | "d = 12" | "d = 13" | "d = 14" | "d = 15"
proof -
  from assms have "d = 0 \<or> d = 1 \<or> d = 2 \<or> d = 3 \<or> d = 4 \<or> d = 5 \<or> d = 6 \<or> d = 7
    \<or> d = 8 \<or> d = 9 \<or> d = 10 \<or> d = 11 \<or> d = 12 \<or> d = 13 \<or> d = 14 \<or> d = 15"
    by arith
  with that show thesis by blast
qed

lemma unhex_hex_upper:
  assumes "d < 16"
  shows "unhex (hex_upper d) = Some d"
  using assms by (rule lt16_cases) (simp_all add: hex_upper_def unhex_def)

lemma hex_upper_not_sep:
  assumes "d < 16"
  shows "hex_upper d \<noteq> CHR ''&'' \<and> hex_upper d \<noteq> CHR ''=''"
  using assms by (rule lt16_cases) (simp_all add: hex_upper_def)

lemma of_char_lt_256: "(of_char c :: nat) < 256"
  by (metis of_char_mod_256 mod_less_divisor zero_less_numeral)

lemma urlencode_char_not_sep:
  assumes "ch \<in> set (urlencode_char c)"
  shows "ch \<noteq> CHR ''&'' \<and> ch \<noteq> CHR ''=''"
proof -
  have d: "(of_char c :: nat) div 16 < 16" "(of_char c :: nat) mod 16 < 16"
    using of_char_lt_256[of c] by presburger+
  have h2: "hex_upper (of_char c) = hex_upper (of_char c mod 16)"
    by (simp add: hex_upper_def)
  from assms hex_upper_not_sep[OF d(1)] hex_upper_not_sep[OF d(2)] show ?thesis
    unfolding urlencode_char_def Let_def h2
    by (auto split: if_splits)
qed

lemma urlencode_not_sep:
  assumes "ch \<in> set (urlencode s)"
  shows "ch \<noteq> CHR ''&'' \<and> ch \<noteq> CHR ''=''"
  using assms urlencode_char_not_sep by (auto simp: urlencode_def)

lemma urldecode_urlencode_char:
  "urldecode (urlencode_char c @ rest) = c # urldecode rest"
proof -
  let ?n = "of_char c :: nat"
  have d: "?n div 16 < 16" "?n mod 16 < 16"
    using of_char_lt_256[of c] by presburger+
  have h2: "hex_upper ?n = hex_upper (?n mod 16)"
    by (simp add: hex_upper_def)
  have c: "char_of (16 * (?n div 16) + ?n mod 16) = c"
    by simp
  consider (safe) "(48 \<le> ?n \<and> ?n \<le> 57) \<or> (65 \<le> ?n \<and> ?n \<le> 90) \<or> (97 \<le> ?n \<and> ?n \<le> 122)
         \<or> c = CHR ''*'' \<or> c = CHR ''-'' \<or> c = CHR ''.'' \<or> c = CHR ''_''"
    | (space) "\<not> ((48 \<le> ?n \<and> ?n \<le> 57) \<or> (65 \<le> ?n \<and> ?n \<le> 90) \<or> (97 \<le> ?n \<and> ?n \<le> 122)
         \<or> c = CHR ''*'' \<or> c = CHR ''-'' \<or> c = CHR ''.'' \<or> c = CHR ''_'')" "c = CHR '' ''"
    | (other) "\<not> ((48 \<le> ?n \<and> ?n \<le> 57) \<or> (65 \<le> ?n \<and> ?n \<le> 90) \<or> (97 \<le> ?n \<and> ?n \<le> 122)
         \<or> c = CHR ''*'' \<or> c = CHR ''-'' \<or> c = CHR ''.'' \<or> c = CHR ''_'')" "c \<noteq> CHR '' ''"
    by blast
  then show ?thesis
  proof cases
    case safe
    then have "c \<noteq> CHR ''+''" "c \<noteq> CHR ''%''" by auto
    with safe show ?thesis by (simp add: urlencode_char_def Let_def)
  next
    case space
    then show ?thesis by (simp add: urlencode_char_def)
  next
    case other
    then have "urlencode_char c = [CHR ''%'', hex_upper (?n div 16), hex_upper (?n mod 16)]"
      using h2 by (simp add: urlencode_char_def Let_def)
    then show ?thesis
      using unhex_hex_upper[OF d(1)] unhex_hex_upper[OF d(2)] c by simp
  qed
qed

lemma urldecode_urlencode: "urldecode (urlencode s) = s"
proof (induction s)
  case Nil
  show ?case by (simp add: urlencode_def)
next
  case (Cons c s)
  have "urlencode (c # s) = urlencode_char c @ urlencode s"
    by (simp add: urlencode_def)
  with Cons show ?case by (simp only: urldecode_urlencode_char)
qed

lemma parse_pair_encoded:
  "parse_pair (urlencode k @ CHR ''='' # urlencode v) = (k, v)"
proof -
  have n: "\<And>ch. ch \<in> set (urlencode k) \<Longrightarrow> ch \<noteq> CHR ''=''"
    using urlencode_not_sep by blast
  have "takeWhile (\<lambda>c. c \<noteq> CHR ''='') (urlencode k @ CHR ''='' # urlencode v) = urlencode k"
    using n by (simp add: takeWhile_append2)
  moreover have "dropWhile (\<lambda>c. c \<noteq> CHR ''='') (urlencode k @ CHR ''='' # urlencode v)
                   = CHR ''='' # urlencode v"
    using n by (simp add: dropWhile_append2)
  ultimately show ?thesis
    by (simp add: parse_pair_def urldecode_urlencode)
qed

lemma split_on_no_sep: "sep \<notin> set p \<Longrightarrow> split_on sep p = [p]"
  by (induction p) auto

lemma split_on_append: "sep \<notin> set p \<Longrightarrow> split_on sep (p @ sep # rest) = p # split_on sep rest"
  by (induction p) auto

lemma split_on_join:
  assumes "pieces \<noteq> []" and "\<forall>p \<in> set pieces. sep \<notin> set p"
  shows "split_on sep (join [sep] pieces) = pieces"
  using assms
proof (induction "[sep]" pieces rule: join.induct)
  case 1
  then show ?case by simp
next
  case (2 x)
  then show ?case by (simp add: split_on_no_sep)
next
  case (3 x y ys)
  then show ?case by (simp add: split_on_append)
qed

text \<open>Parsing the serialized query string gives the parameters back.\<close>

lemma parse_query_toString: "parse_query (URLSearchParams_toString ps) = ps"
proof (cases "ps = []")
  case True
  then show ?thesis by (simp add: parse_query_def URLSearchParams_toString_def)
next
  case False
  let ?pieces = "map (\<lambda>kv. urlencode (fst kv) @ ''='' @ urlencode (snd kv)) ps"
  have ne: "?pieces \<noteq> []" using False by simp
  have nosep: "\<forall>p \<in> set ?pieces. CHR ''&'' \<notin> set p"
    using urlencode_not_sep by fastforce
  have nonempty: "\<forall>p \<in> set ?pieces. p \<noteq> []" by auto
  have "split_on CHR ''&'' (join ''&'' ?pieces) = ?pieces"
    using split_on_join[OF ne nosep] by simp
  then have "parse_query (URLSearchParams_toString ps) = map parse_pair ?pieces"
    using nonempty by (simp add: parse_query_def URLSearchParams_toString_def filter_id_conv)
  also have "\<dots> = map (\<lambda>kv. kv) ps"
    unfolding map_map by (rule map_cong) (simp_all add: parse_pair_encoded)
  also have "\<dots> = ps" by simp
  finally show ?thesis .
qed

section \<open>Properties of JSON serialization\<close>

lemma skip_ws_ws: "\<forall>c \<in> set w. is_ws c \<Longrightarrow> skip_ws (w @ s) = skip_ws s"
  by (simp add: skip_ws_def dropWhile_append)

lemma skip_ws_nonws: "\<not> is_ws c \<Longrightarrow> skip_ws (c # s) = c # s"
  by (simp add: skip_ws_def)

lemma skip_ws_idem: "skip_ws (skip_ws s) = skip_ws s"
  unfolding skip_ws_def by (induction s) auto

lemma parse_value_skip_ws: "parse_json PValue (skip_ws s) = parse_json PValue s"
  by (subst (1 2) parse_json.simps) (simp add: skip_ws_idem)

lemma parse_members_skip_ws: "parse_json (PMembers acc) (skip_ws s) = parse_json (PMembers acc) s"
  by (subst (1 2) parse_json.simps) (simp add: skip_ws_idem)

lemma parse_value_ws: "\<forall>c \<in> set w. is_ws c \<Longrightarrow> parse_json PValue (w @ s) = parse_json PValue s"
  by (metis parse_value_skip_ws skip_ws_ws)

lemma parse_members_ws:
  "\<forall>c \<in> set w. is_ws c \<Longrightarrow> parse_json (PMembers acc) (w @ s) = parse_json (PMembers acc) s"
  by (metis parse_members_skip_ws skip_ws_ws)

lemma parse_elems_ws:
  "\<forall>c \<in> set w. is_ws c \<Longrightarrow> parse_json (PElems acc) (w @ s) = parse_json (PElems acc) s"
  by (subst (1 2) parse_json.simps) (simp add: parse_value_ws)

subsection \<open>Numbers\<close>

lemma digit_char: "d < 10 \<Longrightarrow> is_digit (''0123456789'' ! d) \<and> of_char (''0123456789'' ! d) - 48 = d"
proof -
  assume "d < 10"
  then have "d = 0 \<or> d = 1 \<or> d = 2 \<or> d = 3 \<or> d = 4 \<or> d = 5 \<or> d = 6 \<or> d = 7 \<or> d = 8 \<or> d = 9"
    by arith
  then show ?thesis by (elim disjE) (simp_all add: is_digit_def)
qed

lemma digit_nonzero:
  fixes m :: nat
  assumes "0 < m" "m < 10"
  shows "''0123456789'' ! m \<noteq> CHR ''0''"
proof -
  from assms have "m = 1 \<or> m = 2 \<or> m = 3 \<or> m = 4 \<or> m = 5 \<or> m = 6 \<or> m = 7 \<or> m = 8 \<or> m = 9"
    by arith
  then show ?thesis by (elim disjE) simp_all
qed

lemma show_nat_digits: "\<forall>c \<in> set (show_nat n). is_digit c"
  by (induction n rule: show_nat.induct) (subst show_nat.simps, simp add: digit_char)

lemma show_nat_nonempty: "show_nat n \<noteq> []"
  by (subst show_nat.simps) simp

lemma parse_nat_snoc: "parse_nat (ds @ [c]) = 10 * parse_nat ds + (of_char c - 48)"
  by (simp add: parse_nat_def)

lemma parse_nat_show_nat: "parse_nat (show_nat n) = n"
proof (induction n rule: show_nat.induct)
  case (1 n)
  show ?case
  proof (cases "n < 10")
    case True
    then show ?thesis
      by (subst show_nat.simps) (simp add: parse_nat_def digit_char)
  next
    case False
    with 1 have "parse_nat (show_nat (n div 10)) = n div 10" by simp
    with False show ?thesis
      by (subst show_nat.simps) (simp add: parse_nat_snoc digit_char)
  qed
qed

lemma show_nat_small: "n < 10 \<Longrightarrow> show_nat n = [''0123456789'' ! n]"
  by (subst show_nat.simps) simp

lemma show_nat_large: "\<not> n < 10 \<Longrightarrow> show_nat n = show_nat (n div 10) @ [''0123456789'' ! (n mod 10)]"
  by (subst show_nat.simps) simp

lemma show_nat_hd: "0 < n \<Longrightarrow> hd (show_nat n) \<noteq> CHR ''0''"
proof (induction n rule: show_nat.induct)
  case (1 n)
  show ?case
  proof (cases "n < 10")
    case True
    from digit_nonzero[OF 1(2) True] show ?thesis
      unfolding show_nat_small[OF True] list.sel .
  next
    case False
    then have "0 < n div 10" by simp
    with 1(1) False have "hd (show_nat (n div 10)) \<noteq> CHR ''0''" by simp
    with False show ?thesis
      by (simp add: show_nat_large show_nat_nonempty)
  qed
qed

lemma show_nat_hd_digit: "is_digit (hd (show_nat n))"
  using show_nat_digits[of n] show_nat_nonempty[of n] by (cases "show_nat n") auto

lemma takeWhile_digits:
  assumes "\<forall>c \<in> set ds. is_digit c" and "r = [] \<or> \<not> is_digit (hd r)"
  shows "takeWhile is_digit (ds @ r) = ds" and "dropWhile is_digit (ds @ r) = r"
  using assms by (cases r; simp add: takeWhile_append2 dropWhile_append2)+

lemma parse_nat_append: "parse_nat (a @ b) = parse_nat a * 10 ^ length b + parse_nat b"
proof (induction b rule: rev_induct)
  case Nil
  show ?case by (simp add: parse_nat_def)
next
  case (snoc c b)
  have "parse_nat (a @ b @ [c]) = 10 * parse_nat (a @ b) + (of_char c - 48)"
    using parse_nat_snoc[of "a @ b" c] by simp
  with snoc show ?case
    by (simp add: parse_nat_snoc algebra_simps)
qed

lemma parse_nat_zeros: "parse_nat (replicate j CHR ''0'') = 0"
proof (induction j)
  case 0
  show ?case by (simp add: parse_nat_def)
next
  case (Suc j)
  have "replicate (Suc j) CHR ''0'' = replicate j CHR ''0'' @ [CHR ''0'']"
    by (simp add: replicate_append_same)
  with Suc show ?case by (simp only: parse_nat_snoc) simp
qed

lemma zeros_digits: "\<forall>c \<in> set (replicate j CHR ''0''). is_digit c"
  by (simp add: is_digit_def)

lemma strip_zeros_pow:
  assumes "s \<noteq> 0" and "s mod 10 \<noteq> 0"
  shows "strip_zeros (s * 10 ^ j) e = (s, e + int j)"
proof (induction j arbitrary: e)
  case 0
  from assms show ?case by (subst strip_zeros.simps) simp
next
  case (Suc j)
  have "strip_zeros (s * 10 ^ Suc j) e = strip_zeros (s * 10 ^ j) (e + 1)"
    using assms(1) by (subst strip_zeros.simps) simp
  with Suc[of "e + 1"] show ?case by simp
qed

lemma decimal_pow:
  assumes "s \<noteq> 0" and "s mod 10 \<noteq> 0"
  shows "decimal neg (s * 10 ^ j) e = Finite neg s (e + int j)"
  using assms by (simp add: decimal_def strip_zeros_pow)

lemma decimal_digits:
  assumes "s \<noteq> 0" and "s mod 10 \<noteq> 0"
  shows "decimal neg s e = Finite neg s e"
  using decimal_pow[OF assms, of neg 0 e] by simp

lemma ends_token_stop:
  assumes "ends_token rest"
  shows "rest = [] \<or> \<not> is_digit (hd rest)"
    and "read_fraction rest = Some ([], rest)"
    and "read_exponent rest = Some (0, rest)"
  using assms by (cases rest; auto simp: ends_token_def is_digit_def read_fraction_def read_exponent_def)+

lemma read_fraction_digits:
  assumes "\<forall>c \<in> set fp. is_digit c" and "fp \<noteq> []" and "r = [] \<or> \<not> is_digit (hd r)"
  shows "read_fraction (CHR ''.'' # fp @ r) = Some (fp, r)"
  using assms(2) by (simp add: read_fraction_def takeWhile_digits[OF assms(1,3)])

lemma read_fraction_e: "read_fraction (CHR ''e'' # r) = Some ([], CHR ''e'' # r)"
  by (simp add: read_fraction_def)

lemma read_exponent_shown:
  assumes "ends_token rest"
  shows "read_exponent (CHR ''e'' # (if x < 0 then ''-'' else ''+'') @ show_nat (nat \<bar>x\<bar>) @ rest)
           = Some (x, rest)"
proof -
  note t = takeWhile_digits[OF show_nat_digits ends_token_stop(1)[OF assms]]
  show ?thesis
    by (simp add: read_exponent_def t show_nat_nonempty parse_nat_show_nat)
qed

lemma parse_decimal_parts:
  assumes "\<forall>c \<in> set ip. is_digit c" and "ip \<noteq> []"
    and "length ip = 1 \<or> hd ip \<noteq> CHR ''0''"
    and "r = [] \<or> \<not> is_digit (hd r)"
    and "read_fraction r = Some (fp, r2)" and "read_exponent r2 = Some (ex, r3)"
  shows "parse_decimal (ip @ r) = Some ((parse_nat (ip @ fp), ex - int (length fp)), r3)"
  using assms(2,3,5,6)
  by (auto simp add: parse_decimal_def takeWhile_digits[OF assms(1,4)])

lemma parse_decimal_layout:
  assumes s: "s \<noteq> 0" "s mod 10 \<noteq> 0" and rest: "ends_token rest"
  shows "\<exists>m e'. parse_decimal (layout (show_nat s) (e + int (length (show_nat s))) @ rest)
                    = Some ((m, e'), rest)
               \<and> decimal neg m e' = Finite neg s e"
proof -
  define ds where "ds = show_nat s"
  define k where "k = int (length ds)"
  define n where "n = e + k"
  have dig: "\<forall>c \<in> set ds. is_digit c" and NE: "ds \<noteq> []" and P: "parse_nat ds = s"
    unfolding ds_def by (simp_all add: show_nat_digits show_nat_nonempty parse_nat_show_nat)
  have H: "hd ds \<noteq> CHR ''0''"
    unfolding ds_def using s(1) by (simp add: show_nat_hd)
  have k1: "1 \<le> k"
    unfolding k_def using NE by (cases ds) simp_all
  note stop = ends_token_stop[OF rest]
  have notdig: "\<not> is_digit CHR ''.''" "\<not> is_digit CHR ''e''"
    by (simp_all add: is_digit_def)
  consider (A) "- 5 \<le> n" "n \<le> 21" "k \<le> n"
    | (B) "- 5 \<le> n" "n \<le> 21" "\<not> k \<le> n" "0 < n"
    | (C) "- 5 \<le> n" "n \<le> 21" "\<not> k \<le> n" "\<not> 0 < n"
    | (D) "\<not> (- 5 \<le> n \<and> n \<le> 21)" "k = 1"
    | (E) "\<not> (- 5 \<le> n \<and> n \<le> 21)" "k \<noteq> 1"
    by blast
  then have "\<exists>m e'. parse_decimal (layout ds n @ rest) = Some ((m, e'), rest)
               \<and> decimal neg m e' = Finite neg s e"
  proof cases
    case A
    define z where "z = replicate (nat (n - k)) CHR ''0''"
    have l: "layout ds n = ds @ z"
      using A by (simp add: layout_def k_def z_def)
    have dz: "\<forall>c \<in> set (ds @ z). is_digit c"
      using dig zeros_digits[of "nat (n - k)"] by (auto simp: z_def)
    have hz: "hd (ds @ z) \<noteq> CHR ''0''"
      using NE H by simp
    have "parse_decimal ((ds @ z) @ rest)
            = Some ((parse_nat ((ds @ z) @ []), 0 - int (length ([] :: string))), rest)"
    proof (rule parse_decimal_parts[OF dz _ _ stop(1) stop(2) stop(3)])
      show "ds @ z \<noteq> []" using NE by simp
      show "length (ds @ z) = 1 \<or> hd (ds @ z) \<noteq> CHR ''0''" using hz by simp
    qed
    moreover have "parse_nat ((ds @ z) @ []) = s * 10 ^ nat (n - k)"
      by (simp add: parse_nat_append P z_def parse_nat_zeros)
    moreover have "decimal neg (s * 10 ^ nat (n - k)) 0 = Finite neg s e"
      using A(3) by (simp add: decimal_pow[OF s] n_def)
    ultimately show ?thesis
      unfolding l by simp
  next
    case B
    define ip where "ip = take (nat n) ds"
    define fp where "fp = drop (nat n) ds"
    have l: "layout ds n @ rest = ip @ (CHR ''.'' # fp @ rest)"
      using B by (simp add: layout_def k_def ip_def fp_def)
    have nk: "nat n < length ds"
      using B(3,4) by (simp add: k_def)
    have di: "\<forall>c \<in> set ip. is_digit c" and df: "\<forall>c \<in> set fp. is_digit c"
      using dig unfolding ip_def fp_def by (auto dest: in_set_takeD in_set_dropD)
    have ine: "ip \<noteq> []" and fne: "fp \<noteq> []"
      using B(4) nk NE unfolding ip_def fp_def by simp_all
    have hi: "hd ip \<noteq> CHR ''0''"
      using H B(4) unfolding ip_def by (simp add: hd_take)
    have lf: "int (length fp) = k - n"
      using nk B(4) unfolding fp_def k_def by simp
    have "parse_decimal (ip @ (CHR ''.'' # fp @ rest))
            = Some ((parse_nat (ip @ fp), 0 - int (length fp)), rest)"
    proof (rule parse_decimal_parts[OF di ine _ _ read_fraction_digits[OF df fne stop(1)] stop(3)])
      show "length ip = 1 \<or> hd ip \<noteq> CHR ''0''" using hi by simp
      show "CHR ''.'' # fp @ rest = [] \<or> \<not> is_digit (hd (CHR ''.'' # fp @ rest))"
        by (simp add: notdig)
    qed
    moreover have "parse_nat (ip @ fp) = s"
      unfolding ip_def fp_def by (simp add: P)
    moreover have "decimal neg s (0 - int (length fp)) = Finite neg s e"
      unfolding lf by (simp add: decimal_digits[OF s] n_def)
    ultimately show ?thesis
      unfolding l by simp
  next
    case C
    define z where "z = replicate (nat (- n)) CHR ''0''"
    have l: "layout ds n @ rest = ''0'' @ (CHR ''.'' # (z @ ds) @ rest)"
      using C by (simp add: layout_def k_def z_def)
    have dz: "\<forall>c \<in> set (z @ ds). is_digit c"
      using dig zeros_digits[of "nat (- n)"] by (auto simp: z_def)
    have d0: "\<forall>c \<in> set ''0''. is_digit c"
      by (simp add: is_digit_def)
    have fne: "z @ ds \<noteq> []"
      using NE by simp
    have lf: "int (length (z @ ds)) = k - n"
      using C(4) by (simp add: z_def k_def)
    have "parse_decimal (''0'' @ (CHR ''.'' # (z @ ds) @ rest))
            = Some ((parse_nat (''0'' @ (z @ ds)), 0 - int (length (z @ ds))), rest)"
    proof (rule parse_decimal_parts[OF d0 _ _ _ read_fraction_digits[OF dz fne stop(1)] stop(3)])
      show "''0'' \<noteq> []" by simp
      show "length ''0'' = 1 \<or> hd ''0'' \<noteq> CHR ''0''" by simp
      show "CHR ''.'' # (z @ ds) @ rest = [] \<or> \<not> is_digit (hd (CHR ''.'' # (z @ ds) @ rest))"
        by (simp add: notdig)
    qed
    moreover have "parse_nat (''0'' @ (z @ ds)) = s"
    proof -
      have "''0'' @ (z @ ds) = replicate (Suc (nat (- n))) CHR ''0'' @ ds"
        by (simp add: z_def)
      then show ?thesis
        by (simp only: parse_nat_append parse_nat_zeros P)
    qed
    moreover have "decimal neg s (0 - int (length (z @ ds))) = Finite neg s e"
      unfolding lf by (simp add: decimal_digits[OF s] n_def)
    ultimately show ?thesis
      unfolding l by simp
  next
    case D
    define ex where "ex = (if n - 1 < 0 then ''-'' else ''+'') @ show_nat (nat \<bar>n - 1\<bar>)"
    have l: "layout ds n @ rest = ds @ (CHR ''e'' # ex @ rest)"
    proof -
      from D(1) have out: "(- 5 \<le> n \<and> n \<le> 21) = False" by simp
      from D(2) have "int (length ds) = 1" by (simp add: k_def)
      then show ?thesis
        by (simp only: layout_def Let_def out if_False ex_def) simp
    qed
    have re: "read_exponent (CHR ''e'' # ex @ rest) = Some (n - 1, rest)"
      using read_exponent_shown[OF rest, of "n - 1"] by (simp add: ex_def)
    have l1: "length ds = 1"
      using D(2) by (simp add: k_def)
    have "parse_decimal (ds @ (CHR ''e'' # ex @ rest))
            = Some ((parse_nat (ds @ []), (n - 1) - int (length ([] :: string))), rest)"
    proof (rule parse_decimal_parts[OF dig NE _ _ read_fraction_e re])
      show "length ds = 1 \<or> hd ds \<noteq> CHR ''0''" using l1 by simp
      show "CHR ''e'' # ex @ rest = [] \<or> \<not> is_digit (hd (CHR ''e'' # ex @ rest))"
        by (simp add: notdig)
    qed
    moreover have "decimal neg s (n - 1) = Finite neg s e"
      using D(2) by (simp add: decimal_digits[OF s] n_def)
    ultimately show ?thesis
      unfolding l by (simp add: P)
  next
    case E
    define ex where "ex = (if n - 1 < 0 then ''-'' else ''+'') @ show_nat (nat \<bar>n - 1\<bar>)"
    define ip where "ip = take 1 ds"
    define fp where "fp = drop 1 ds"
    have l: "layout ds n @ rest = ip @ (CHR ''.'' # fp @ (CHR ''e'' # ex @ rest))"
    proof -
      from E(1) have out: "(- 5 \<le> n \<and> n \<le> 21) = False" by simp
      from E(2) have "(int (length ds) = 1) = False" by (simp add: k_def)
      then show ?thesis
        by (simp only: layout_def Let_def out if_False ex_def ip_def fp_def) simp
    qed
    have re: "read_exponent (CHR ''e'' # ex @ rest) = Some (n - 1, rest)"
      using read_exponent_shown[OF rest, of "n - 1"] by (simp add: ex_def)
    have k2: "1 < length ds"
      using E(2) k1 by (simp add: k_def)
    have di: "\<forall>c \<in> set ip. is_digit c" and df: "\<forall>c \<in> set fp. is_digit c"
      using dig unfolding ip_def fp_def by (auto dest: in_set_takeD in_set_dropD)
    have ine: "ip \<noteq> []" and fne: "fp \<noteq> []" and li: "length ip = 1"
      using k2 NE unfolding ip_def fp_def by simp_all
    have lf: "int (length fp) = k - 1"
      using k2 unfolding fp_def k_def by simp
    have se: "CHR ''e'' # ex @ rest = [] \<or> \<not> is_digit (hd (CHR ''e'' # ex @ rest))"
      by (simp add: notdig)
    have "parse_decimal (ip @ (CHR ''.'' # fp @ (CHR ''e'' # ex @ rest)))
            = Some ((parse_nat (ip @ fp), (n - 1) - int (length fp)), rest)"
    proof (rule parse_decimal_parts[OF di ine _ _ read_fraction_digits[OF df fne se] re])
      show "length ip = 1 \<or> hd ip \<noteq> CHR ''0''" using li by simp
      show "CHR ''.'' # fp @ CHR ''e'' # ex @ rest = []
              \<or> \<not> is_digit (hd (CHR ''.'' # fp @ CHR ''e'' # ex @ rest))"
        by (simp add: notdig)
    qed
    moreover have "parse_nat (ip @ fp) = s"
      unfolding ip_def fp_def by (simp add: P)
    moreover have "decimal neg s ((n - 1) - int (length fp)) = Finite neg s e"
      unfolding lf by (simp add: decimal_digits[OF s] n_def)
    ultimately show ?thesis
      unfolding l by simp
  qed
  then show ?thesis
    by (simp add: ds_def k_def n_def)
qed

lemma parse_decimal_zero:
  assumes "ends_token rest"
  shows "parse_decimal (''0'' @ rest) = Some ((0, 0), rest)"
proof -
  have d0: "\<forall>c \<in> set ''0''. is_digit c"
    by (simp add: is_digit_def)
  note stop = ends_token_stop[OF assms]
  have "parse_decimal (''0'' @ rest)
          = Some ((parse_nat (''0'' @ []), 0 - int (length ([] :: string))), rest)"
    by (rule parse_decimal_parts[OF d0 _ _ stop(1) stop(2) stop(3)]) simp_all
  then show ?thesis by (simp add: parse_nat_def)
qed

lemma layout_hd_digit:
  assumes "ds \<noteq> []" and "is_digit (hd ds)"
  shows "layout ds n \<noteq> [] \<and> is_digit (hd (layout ds n))"
  using assms by (cases ds) (auto simp: layout_def Let_def is_digit_def hd_append)

lemma parse_number_toString:
  assumes "json_number x" and "ends_token rest"
  shows "parse_number (Number_toString x @ rest) = Some (JNum x, rest)"
proof (cases x)
  case (Finite neg s e)
  show ?thesis
  proof (cases "s = 0")
    case True
    with assms(1) Finite have x: "x = Finite False 0 0" by simp
    show ?thesis
      unfolding x using parse_decimal_zero[OF assms(2)]
      by (simp add: parse_number_def decimal_def)
  next
    case False
    with assms(1) Finite have s: "s \<noteq> 0" "s mod 10 \<noteq> 0" by simp_all
    let ?t = "layout (show_nat s) (e + int (length (show_nat s)))"
    from parse_decimal_layout[OF s assms(2), of e neg] obtain m e' where
      p: "parse_decimal (?t @ rest) = Some ((m, e'), rest)" and d: "decimal neg m e' = Finite neg s e"
      by blast
    from layout_hd_digit[OF show_nat_nonempty show_nat_hd_digit, of s "e + int (length (show_nat s))"]
    obtain c cs where t: "?t = c # cs" and c: "is_digit c"
      by (cases ?t) auto
    from c have cm: "c \<noteq> CHR ''-''" by (auto simp: is_digit_def)
    show ?thesis
    proof (cases neg)
      case True
      with Finite s p d show ?thesis
        by (simp add: parse_number_def)
    next
      case f: False
      have "parse_number (?t @ rest) = Some (JNum (Finite neg s e), rest)"
        using p d cm f unfolding t by (simp add: parse_number_def)
      with Finite s f show ?thesis by simp
    qed
  qed
next
  case (Infinite neg)
  with assms(1) show ?thesis by simp
next
  case NaN
  with assms(1) show ?thesis by simp
qed

lemma Number_toString_start:
  "\<exists>c cs. Number_toString (Finite neg s e) = c # cs \<and> (is_digit c \<or> c = CHR ''-'')"
proof (cases "s = 0 \<or> neg")
  case True
  then show ?thesis by (auto simp: is_digit_def)
next
  case False
  from layout_hd_digit[OF show_nat_nonempty show_nat_hd_digit, of s "e + int (length (show_nat s))"]
  obtain c cs where "layout (show_nat s) (e + int (length (show_nat s))) = c # cs" and "is_digit c"
    by (cases "layout (show_nat s) (e + int (length (show_nat s)))") auto
  with False show ?thesis by simp
qed

subsection \<open>Strings\<close>

lemma unhex_hex_lower:
  assumes "d < 16"
  shows "unhex (hex_lower d) = Some d"
  using assms by (rule lt16_cases) (simp_all add: hex_lower_def unhex_def)

lemma parse_string_quote_char:
  "parse_string (quote_char c @ remainder) = cons_char c (parse_string remainder)"
proof (cases "c = CHR 0x08 \<or> c = CHR 0x09 \<or> c = CHR 0x0A \<or> c = CHR 0x0C \<or> c = CHR 0x0D
               \<or> c = CHR 0x22 \<or> c = CHR 0x5C")
  case True
  then show ?thesis
    by (elim disjE) (simp_all add: quote_char_def unescape_def)
next
  case False
  let ?n = "of_char c :: nat"
  show ?thesis
  proof (cases "?n < 32")
    case True
    have d: "?n div 16 < 16" "?n mod 16 < 16"
      using True by presburger+
    have h2: "hex_lower ?n = hex_lower (?n mod 16)"
      by (simp add: hex_lower_def)
    have z: "unhex CHR ''0'' = Some 0"
      by (simp add: unhex_def)
    have c: "char_of (16 * (?n div 16) + ?n mod 16) = c"
      by simp
    from False True have "quote_char c =
        [CHR 0x5C, CHR ''u'', CHR ''0'', CHR ''0'', hex_lower (?n div 16), hex_lower (?n mod 16)]"
      using h2 by (simp add: quote_char_def)
    then show ?thesis
      using unhex_hex_lower[OF d(1)] unhex_hex_lower[OF d(2)] z c by simp
  next
    case n: False
    from False n have "quote_char c = [c]"
      by (simp add: quote_char_def)
    with False n show ?thesis by simp
  qed
qed

lemma parse_string_quoted:
  "parse_string (concat (map quote_char s) @ CHR 0x22 # rest) = Some (s, rest)"
proof (induction s)
  case Nil
  show ?case by simp
next
  case (Cons c s)
  have "parse_string (concat (map quote_char (c # s)) @ CHR 0x22 # rest)
          = parse_string (quote_char c @ (concat (map quote_char s) @ CHR 0x22 # rest))"
    by simp
  also have "\<dots> = cons_char c (parse_string (concat (map quote_char s) @ CHR 0x22 # rest))"
    by (rule parse_string_quote_char)
  also have "\<dots> = Some (c # s, rest)"
    by (simp add: Cons cons_char_def)
  finally show ?case .
qed

lemma parse_string_QuoteJSONString:
  "\<exists>body. QuoteJSONString s @ rest = CHR 0x22 # body \<and> parse_string body = Some (s, rest)"
  by (simp add: QuoteJSONString_def parse_string_quoted)

subsection \<open>Values\<close>

lemma parse_value_eq:
  "parse_json PValue s =
     (case skip_ws s of
        [] \<Rightarrow> None
      | c # cs \<Rightarrow>
          if c = CHR ''n'' then (if take 3 cs = ''ull'' then Some (JNull, drop 3 cs) else None)
          else if c = CHR ''t'' then (if take 3 cs = ''rue'' then Some (JBool True, drop 3 cs) else None)
          else if c = CHR ''f'' then (if take 4 cs = ''alse'' then Some (JBool False, drop 4 cs) else None)
          else if c = CHR 0x22 then map_option (\<lambda>sr. (JStr (fst sr), snd sr)) (parse_string cs)
          else if c = CHR ''['' then
            (case skip_ws cs of
               [] \<Rightarrow> None
             | c' # rest \<Rightarrow>
                 if c' = CHR '']'' then Some (JArr [], rest) else parse_json (PElems []) cs)
          else if c = CHR ''{'' then
            (case skip_ws cs of
               [] \<Rightarrow> None
             | c' # rest \<Rightarrow>
                 if c' = CHR ''}'' then Some (JObj [], rest) else parse_json (PMembers []) cs)
          else parse_number (c # cs))"
  by (subst parse_json.simps) simp

lemma parse_elems_eq:
  "parse_json (PElems acc) s =
     Option.bind (parse_json PValue s) (\<lambda>vr.
       case skip_ws (snd vr) of
         [] \<Rightarrow> None
       | c # rest \<Rightarrow>
           if c = CHR '','' then parse_json (PElems (acc @ [fst vr])) rest
           else if c = CHR '']'' then Some (JArr (acc @ [fst vr]), rest)
           else None)"
  by (subst parse_json.simps) simp

lemma parse_members_eq:
  "parse_json (PMembers acc) s =
     (case skip_ws s of
        [] \<Rightarrow> None
      | c # cs \<Rightarrow>
          if c \<noteq> CHR 0x22 then None
          else
            (case parse_string cs of
               None \<Rightarrow> None
             | Some kr \<Rightarrow>
                 (case skip_ws (snd kr) of
                    [] \<Rightarrow> None
                  | c1 # rest1 \<Rightarrow>
                      if c1 \<noteq> CHR '':'' then None
                      else
                        Option.bind (parse_json PValue rest1) (\<lambda>vr.
                          case skip_ws (snd vr) of
                            [] \<Rightarrow> None
                          | c2 # rest3 \<Rightarrow>
                              if c2 = CHR '','' then
                                parse_json (PMembers (obj_set acc (fst kr) (fst vr))) rest3
                              else if c2 = CHR ''}'' then
                                Some (JObj (obj_set acc (fst kr) (fst vr)), rest3)
                              else None))))"
  by (subst parse_json.simps) simp

lemma not_ws_simps [simp]:
  "\<not> is_ws CHR ''n''" "\<not> is_ws CHR ''t''" "\<not> is_ws CHR ''f''" "\<not> is_ws CHR 0x22"
  "\<not> is_ws CHR ''[''" "\<not> is_ws CHR '']''" "\<not> is_ws CHR ''{''" "\<not> is_ws CHR ''}''"
  "\<not> is_ws CHR '',''" "\<not> is_ws CHR '':''" "\<not> is_ws CHR ''-''"
  "is_ws CHR '' ''" "is_ws CHR 0x0A"
  by (simp_all add: is_ws_def)

lemma roundtrips_null: "roundtrips ind JNull"
  by (simp add: roundtrips_def parse_value_eq skip_ws_nonws)

lemma roundtrips_bool: "roundtrips ind (JBool b)"
  by (cases b) (simp_all add: roundtrips_def parse_value_eq skip_ws_nonws)

lemma roundtrips_str: "roundtrips ind (JStr s)"
proof -
  have "parse_json PValue (QuoteJSONString s @ rest) = Some (JStr s, rest)" for rest
    by (simp add: QuoteJSONString_def parse_value_eq skip_ws_nonws parse_string_quoted)
  then show ?thesis by (simp add: roundtrips_def)
qed

lemma digit_not_special:
  assumes "is_digit c \<or> c = CHR ''-''"
  shows "\<not> is_ws c" "c \<noteq> CHR ''n''" "c \<noteq> CHR ''t''" "c \<noteq> CHR ''f''" "c \<noteq> CHR 0x22"
    "c \<noteq> CHR ''[''" "c \<noteq> CHR ''{''"
  using assms by (auto simp: is_digit_def is_ws_def)

lemma roundtrips_num:
  assumes "json_number x"
  shows "roundtrips ind (JNum x)"
proof -
  from assms obtain neg s e where x: "x = Finite neg s e"
    by (cases x) simp_all
  from Number_toString_start[of neg s e] obtain c cs where
    s: "Number_toString x = c # cs" and d: "is_digit c \<or> c = CHR ''-''"
    unfolding x by blast
  have "parse_json PValue (Number_toString x @ rest) = Some (JNum x, rest)"
    if "ends_token rest" for rest
  proof -
    have "parse_json PValue (Number_toString x @ rest) = parse_number (Number_toString x @ rest)"
      using digit_not_special[OF d] unfolding s by (simp add: parse_value_eq skip_ws_nonws)
    with parse_number_toString[OF assms that] show ?thesis by simp
  qed
  moreover have "SerializeJSONProperty ''  '' ind (JNum x) = Some (Number_toString x)"
    unfolding x by simp
  ultimately show ?thesis by (simp add: roundtrips_def)
qed

lemma value_start:
  assumes "json_doc x"
  shows "\<exists>c cs. SerializeJSONProperty gap ind x = Some (c # cs) \<and> \<not> is_ws c
            \<and> c \<noteq> CHR '']'' \<and> c \<noteq> CHR ''}''"
proof (cases x)
  case JUndefined
  with assms show ?thesis by simp
next
  case JNull
  then show ?thesis by simp
next
  case (JBool b)
  then show ?thesis by (cases b) simp_all
next
  case (JNum x)
  with assms obtain neg s e where x: "x = Finite neg s e"
    by (cases x) simp_all
  from Number_toString_start[of neg s e] obtain c cs where
    s: "Number_toString (Finite neg s e) = c # cs" and d: "is_digit c \<or> c = CHR ''-''"
    by blast
  from d have "\<not> is_ws c" "c \<noteq> CHR '']''" "c \<noteq> CHR ''}''"
    by (auto simp: is_digit_def is_ws_def)
  with JNum x s show ?thesis by simp
next
  case (JStr s)
  then show ?thesis by (simp add: QuoteJSONString_def)
next
  case (JArr xs)
  then show ?thesis by (simp add: Let_def)
next
  case (JObj kvs)
  then show ?thesis by (simp add: Let_def)
qed

lemma parse_elems_join:
  assumes ws: "\<forall>c \<in> set ind. is_ws c" and ws': "\<forall>c \<in> set ind'. is_ws c"
    and each: "\<forall>x \<in> set xs. roundtrips ind' x"
    and ne: "xs \<noteq> []"
  shows "parse_json (PElems acc)
           (join ('','' @ [CHR 0x0A] @ ind')
                 (map (\<lambda>x. case SerializeJSONProperty ''  '' ind' x of None \<Rightarrow> ''null'' | Some s \<Rightarrow> s) xs)
            @ [CHR 0x0A] @ ind @ '']'' @ rest)
         = Some (JArr (acc @ xs), rest)"
  using each ne
proof (induction xs arbitrary: acc)
  case Nil
  then show ?case by simp
next
  case (Cons x xs)
  let ?part = "\<lambda>x. case SerializeJSONProperty ''  '' ind' x of None \<Rightarrow> ''null'' | Some s \<Rightarrow> s"
  let ?sep = "'','' @ [CHR 0x0A] @ ind'"
  let ?close = "[CHR 0x0A] @ ind @ '']'' @ rest"
  from Cons.prems obtain t where t: "SerializeJSONProperty ''  '' ind' x = Some t"
    and p: "\<And>rest'. ends_token rest' \<Longrightarrow> parse_json PValue (t @ rest') = Some (x, rest')"
    by (auto simp: roundtrips_def)
  show ?case
  proof (cases xs)
    case Nil
    have e: "ends_token ?close" by (simp add: ends_token_def)
    have s: "skip_ws ?close = CHR '']'' # rest"
      using skip_ws_ws[of "CHR 0x0A # ind" "CHR '']'' # rest"] ws
      by (simp add: skip_ws_nonws)
    have "parse_json (PElems acc) (t @ ?close) = Some (JArr (acc @ [x]), rest)"
      using p[OF e] s by (subst parse_elems_eq) simp
    with Nil t show ?thesis by simp
  next
    case (Cons y ys)
    let ?remainder = "join ?sep (map ?part (y # ys)) @ ?close"
    let ?rest' = "CHR '','' # CHR 0x0A # ind' @ ?remainder"
    have e: "ends_token ?rest'" by (simp add: ends_token_def)
    have s: "skip_ws ?rest' = CHR '','' # CHR 0x0A # ind' @ ?remainder"
      by (simp add: skip_ws_nonws)
    have w: "parse_json (PElems (acc @ [x])) (CHR 0x0A # ind' @ ?remainder)
               = parse_json (PElems (acc @ [x])) ?remainder"
      using parse_elems_ws[of "CHR 0x0A # ind'" "acc @ [x]" ?remainder] ws' by simp
    have ih: "parse_json (PElems (acc @ [x])) ?remainder = Some (JArr ((acc @ [x]) @ (y # ys)), rest)"
      using Cons.IH[of "acc @ [x]"] Cons.prems Cons by simp
    have "parse_json (PElems acc) (t @ ?rest') = Some (JArr (acc @ x # xs), rest)"
      using p[OF e] s w ih Cons by (subst parse_elems_eq) simp
    moreover have "join ?sep (map ?part (x # xs)) @ ?close = t @ ?rest'"
      using Cons t by simp
    ultimately show ?thesis by simp
  qed
qed

lemma roundtrips_arr:
  assumes ws: "\<forall>c \<in> set ind. is_ws c"
    and doc: "\<forall>x \<in> set xs. json_doc x"
    and each: "\<forall>x \<in> set xs. roundtrips (ind @ ''  '') x"
  shows "roundtrips ind (JArr xs)"
proof (cases xs)
  case Nil
  then show ?thesis
    by (simp add: roundtrips_def parse_value_eq skip_ws_nonws)
next
  case (Cons x xs')
  let ?ind' = "ind @ ''  ''"
  let ?part = "\<lambda>x. case SerializeJSONProperty ''  '' ?ind' x of None \<Rightarrow> ''null'' | Some s \<Rightarrow> s"
  let ?join = "join ('','' @ [CHR 0x0A] @ ?ind') (map ?part xs)"
  have ws': "\<forall>c \<in> set ?ind'. is_ws c" using ws by auto
  have ne: "xs \<noteq> []" using Cons by simp
  have t: "SerializeJSONProperty ''  '' ind (JArr xs) = Some (''['' @ [CHR 0x0A] @ ?ind' @ ?join @ [CHR 0x0A] @ ind @ '']'')"
    using ne by (simp add: Let_def)
  from doc Cons have "json_doc x" by simp
  from value_start[OF this, of "''  ''" ?ind'] obtain c cs where
    c: "SerializeJSONProperty ''  '' ?ind' x = Some (c # cs)" "\<not> is_ws c" "c \<noteq> CHR '']''"
    by blast
  have "\<exists>remainder. ?join = c # remainder"
  proof (cases xs')
    case Nil
    with Cons c show ?thesis by simp
  next
    case (Cons y ys)
    with \<open>xs = x # xs'\<close> c show ?thesis by simp
  qed
  then obtain remainder where j: "?join = c # remainder" by blast
  have "parse_json PValue ((''['' @ [CHR 0x0A] @ ?ind' @ ?join @ [CHR 0x0A] @ ind @ '']'') @ rest)
          = Some (JArr xs, rest)" for rest
  proof -
    let ?body = "[CHR 0x0A] @ ?ind' @ ?join @ [CHR 0x0A] @ ind @ '']'' @ rest"
    have s: "skip_ws ?body = c # remainder @ [CHR 0x0A] @ ind @ '']'' @ rest"
      using skip_ws_ws[of "CHR 0x0A # ?ind'" "?join @ [CHR 0x0A] @ ind @ '']'' @ rest"] ws' c(2)
      unfolding j by (simp add: skip_ws_nonws)
    have e: "parse_json (PElems []) ?body = Some (JArr xs, rest)"
      using parse_elems_ws[of "CHR 0x0A # ?ind'" "[]" "?join @ [CHR 0x0A] @ ind @ '']'' @ rest"] ws'
        parse_elems_join[OF ws ws' each ne, of "[]" rest]
      by simp
    have "parse_json PValue (CHR ''['' # ?body) = Some (JArr xs, rest)"
      using s c(3) e by (subst parse_value_eq) (simp add: skip_ws_nonws)
    then show ?thesis by simp
  qed
  with t show ?thesis by (auto simp: roundtrips_def)
qed

lemma obj_set_fresh: "k \<notin> set (map fst kvs) \<Longrightarrow> obj_set kvs k v = kvs @ [(k, v)]"
  by (simp add: obj_set_def)

lemma concat_map_case_Some:
  assumes "\<forall>x \<in> set xs. \<exists>t. g x = Some t"
  shows "concat (map (\<lambda>x. case g x of None \<Rightarrow> [] | Some s \<Rightarrow> [f x s]) xs)
         = map (\<lambda>x. f x (the (g x))) xs"
  using assms by (induction xs) auto

lemma parse_members_join:
  assumes ws: "\<forall>c \<in> set ind. is_ws c" and ws': "\<forall>c \<in> set ind'. is_ws c"
    and each: "\<forall>kv \<in> set kvs. roundtrips ind' (snd kv)"
    and ne: "kvs \<noteq> []"
    and dist: "distinct (map fst (acc @ kvs))"
  shows "parse_json (PMembers acc)
           (join (CHR '','' # CHR 0x0A # ind')
                 (map (\<lambda>kv. QuoteJSONString (fst kv) @ '':'' @ '' '' @ the (SerializeJSONProperty ''  '' ind' (snd kv))) kvs)
            @ CHR 0x0A # ind @ CHR ''}'' # rest)
         = Some (JObj (acc @ kvs), rest)"
  using each ne dist
proof (induction kvs arbitrary: acc)
  case Nil
  then show ?case by simp
next
  case (Cons kv kvs)
  obtain k v where kv: "kv = (k, v)" by (cases kv) auto
  let ?member = "\<lambda>kv. QuoteJSONString (fst kv) @ '':'' @ '' '' @ the (SerializeJSONProperty ''  '' ind' (snd kv))"
  let ?sep = "CHR '','' # CHR 0x0A # ind'"
  let ?close = "CHR 0x0A # ind @ CHR ''}'' # rest"
  from Cons.prems kv obtain t where t: "SerializeJSONProperty ''  '' ind' v = Some t"
    and p: "\<And>rest'. ends_token rest' \<Longrightarrow> parse_json PValue (t @ rest') = Some (v, rest')"
    by (auto simp: roundtrips_def)
  from Cons.prems(3) kv have fresh: "k \<notin> set (map fst acc)" by auto
  have key: "parse_string (concat (map quote_char k) @ CHR 0x22 # CHR '':'' # CHR '' '' # t @ rest')
               = Some (k, CHR '':'' # CHR '' '' # t @ rest')" for rest'
    by (rule parse_string_quoted)
  have val: "parse_json PValue (CHR '' '' # t @ rest') = Some (v, rest')" if "ends_token rest'" for rest'
    using parse_value_ws[of "'' ''" "t @ rest'"] p[OF that] by simp
  have step: "parse_json (PMembers acc) (?member kv @ rest') =
                (case skip_ws rest' of
                   [] \<Rightarrow> None
                 | c2 # rest3 \<Rightarrow>
                     if c2 = CHR '','' then parse_json (PMembers (acc @ [(k, v)])) rest3
                     else if c2 = CHR ''}'' then Some (JObj (acc @ [(k, v)]), rest3)
                     else None)" if "ends_token rest'" for rest'
    using key[of rest'] val[OF that] t obj_set_fresh[OF fresh, of v]
    by (subst parse_members_eq) (simp add: kv QuoteJSONString_def skip_ws_nonws split: list.splits)
  show ?case
  proof (cases kvs)
    case Nil
    have e: "ends_token ?close" by (simp add: ends_token_def)
    have s: "skip_ws ?close = CHR ''}'' # rest"
      using skip_ws_ws[of "CHR 0x0A # ind" "CHR ''}'' # rest"] ws
      by (simp add: skip_ws_nonws)
    have "parse_json (PMembers acc) (?member kv @ ?close) = Some (JObj (acc @ [(k, v)]), rest)"
      using s step[OF e] by simp
    with Nil kv show ?thesis by simp
  next
    case (Cons kv' kvs')
    let ?remainder = "join ?sep (map ?member (kv' # kvs')) @ ?close"
    let ?rest' = "CHR '','' # CHR 0x0A # ind' @ ?remainder"
    have e: "ends_token ?rest'" by (simp add: ends_token_def)
    have s: "skip_ws ?rest' = CHR '','' # CHR 0x0A # ind' @ ?remainder"
      by (simp add: skip_ws_nonws)
    have w: "parse_json (PMembers (acc @ [(k, v)])) (CHR 0x0A # ind' @ ?remainder)
               = parse_json (PMembers (acc @ [(k, v)])) ?remainder"
      using parse_members_ws[of "CHR 0x0A # ind'" "acc @ [(k, v)]" ?remainder] ws' by simp
    have ih: "parse_json (PMembers (acc @ [(k, v)])) ?remainder
                = Some (JObj ((acc @ [(k, v)]) @ (kv' # kvs')), rest)"
      using Cons.IH[of "acc @ [(k, v)]"] Cons.prems Cons kv by simp
    have "parse_json (PMembers acc) (?member kv @ ?rest') = Some (JObj (acc @ kv # kvs), rest)"
      using s w ih Cons kv step[OF e] by simp
    moreover have "join ?sep (map ?member (kv # kvs)) @ ?close = ?member kv @ ?rest'"
      using Cons by simp
    ultimately show ?thesis by simp
  qed
qed

lemma roundtrips_obj:
  assumes ws: "\<forall>c \<in> set ind. is_ws c"
    and dist: "distinct (map fst kvs)"
    and each: "\<forall>kv \<in> set kvs. roundtrips (ind @ ''  '') (snd kv)"
  shows "roundtrips ind (JObj kvs)"
proof (cases kvs)
  case Nil
  then show ?thesis
    by (simp add: roundtrips_def parse_value_eq skip_ws_nonws)
next
  case (Cons kv kvs')
  let ?ind' = "ind @ ''  ''"
  let ?member = "\<lambda>kv. QuoteJSONString (fst kv) @ '':'' @ '' '' @ the (SerializeJSONProperty ''  '' ?ind' (snd kv))"
  let ?join = "join (CHR '','' # CHR 0x0A # ?ind') (map ?member kvs)"
  have ws': "\<forall>c \<in> set ?ind'. is_ws c" using ws by auto
  have ne: "kvs \<noteq> []" using Cons by simp
  have some: "\<forall>kv \<in> set kvs. \<exists>t. SerializeJSONProperty ''  '' ?ind' (snd kv) = Some t"
    using each by (auto simp: roundtrips_def)
  have t: "SerializeJSONProperty ''  '' ind (JObj kvs) = Some (CHR ''{'' # CHR 0x0A # ?ind' @ ?join @ CHR 0x0A # ind @ ''}'')"
    using ne by (simp only: SerializeJSONProperty.simps Let_def concat_map_case_Some[OF some]) simp
  have "\<exists>remainder. ?join = CHR 0x22 # remainder"
  proof (cases kvs')
    case Nil
    with Cons show ?thesis by (simp add: QuoteJSONString_def)
  next
    case (Cons y ys)
    with \<open>kvs = kv # kvs'\<close> show ?thesis by (simp add: QuoteJSONString_def)
  qed
  then obtain remainder where j: "?join = CHR 0x22 # remainder" by blast
  have "parse_json PValue ((CHR ''{'' # CHR 0x0A # ?ind' @ ?join @ CHR 0x0A # ind @ ''}'') @ rest)
          = Some (JObj kvs, rest)" for rest
  proof -
    let ?body = "CHR 0x0A # ?ind' @ ?join @ CHR 0x0A # ind @ CHR ''}'' # rest"
    have s: "skip_ws ?body = CHR 0x22 # remainder @ CHR 0x0A # ind @ CHR ''}'' # rest"
      using skip_ws_ws[of "CHR 0x0A # ?ind'" "?join @ CHR 0x0A # ind @ CHR ''}'' # rest"] ws'
      unfolding j by (simp add: skip_ws_nonws)
    have e: "parse_json (PMembers []) ?body = Some (JObj kvs, rest)"
      using parse_members_ws[of "CHR 0x0A # ?ind'" "[]" "?join @ CHR 0x0A # ind @ CHR ''}'' # rest"] ws'
        parse_members_join[OF ws ws' each ne, of "[]" rest] dist
      by simp
    have "parse_json PValue (CHR ''{'' # ?body) = Some (JObj kvs, rest)"
      using s e by (subst parse_value_eq) (simp add: skip_ws_nonws)
    then show ?thesis by simp
  qed
  with t show ?thesis by (auto simp: roundtrips_def)
qed

text \<open>The round trip: a JSON document, serialized with indentation, parses back to itself.\<close>

lemma json_doc_roundtrips:
  assumes "json_doc d" and "\<forall>c \<in> set ind. is_ws c"
  shows "roundtrips ind d"
  using assms
proof (induction d arbitrary: ind)
  case JUndefined
  then show ?case by simp
next
  case JNull
  show ?case by (rule roundtrips_null)
next
  case (JBool b)
  show ?case by (rule roundtrips_bool)
next
  case (JNum n)
  then show ?case by (simp add: roundtrips_num)
next
  case (JStr s)
  show ?case by (rule roundtrips_str)
next
  case (JArr xs)
  have ws': "\<forall>c \<in> set (ind @ ''  ''). is_ws c" using JArr.prems(2) by auto
  show ?case
  proof (rule roundtrips_arr[OF JArr.prems(2)])
    show "\<forall>x \<in> set xs. json_doc x" using JArr.prems(1) by simp
    show "\<forall>x \<in> set xs. roundtrips (ind @ ''  '') x"
      using JArr.IH JArr.prems(1) ws' by simp
  qed
next
  case (JObj kvs)
  have ws': "\<forall>c \<in> set (ind @ ''  ''). is_ws c" using JObj.prems(2) by auto
  show ?case
  proof (rule roundtrips_obj[OF JObj.prems(2)])
    show "distinct (map fst kvs)" using JObj.prems(1) by simp
    show "\<forall>kv \<in> set kvs. roundtrips (ind @ ''  '') (snd kv)"
    proof
      fix kv assume m: "kv \<in> set kvs"
      then have "json_doc (snd kv)" using JObj.prems(1) by simp
      moreover have "snd kv \<in> Basic_BNFs.snds kv"
        by (cases kv) simp
      ultimately show "roundtrips (ind @ ''  '') (snd kv)"
        using JObj.IH[OF m _ _ ws'] by blast
    qed
  qed
qed

lemma read_json_stringify2:
  assumes "json_doc d"
  shows "\<exists>t. JSON_stringify2 d = Some t \<and> read_json t = Some d"
proof -
  from json_doc_roundtrips[OF assms, of "[]"] obtain t where
    t: "SerializeJSONProperty ''  '' [] d = Some t"
    and p: "\<And>rest. ends_token rest \<Longrightarrow> parse_json PValue (t @ rest) = Some (d, rest)"
    by (auto simp: roundtrips_def)
  from p[of "[]"] have "parse_json PValue t = Some (d, [])"
    by (simp add: ends_token_def)
  then have "read_json t = Some d"
    by (simp add: read_json_def skip_ws_def)
  with t show ?thesis by (simp add: JSON_stringify2_def)
qed

section \<open>Properties of the handler\<close>

lemma tool_case_invalid:
  "parse schema args = Inl err \<Longrightarrow> tool_case schema call render tr args = (Inl err, tr)"
  by (simp add: tool_case_def)

lemma tool_case_valid:
  "parse schema args = Inr v \<Longrightarrow>
   tool_case schema call render tr args =
     (case call tr v of
        (Inl err, tr') \<Rightarrow> (Inl err, tr')
      | (Inr result, tr') \<Rightarrow> (Inr \<lparr>content_text = render result, isError = False\<rparr>, tr'))"
  by (simp add: tool_case_def)

lemma gateway_methods:
  "startAutomation api remote = (\<lambda>tr params. makeRequest api remote tr ''/start_pipeline'' POST params)"
  "retrieveRunDetails api remote = (\<lambda>tr params. makeRequest api remote tr ''/get_pl_run'' GET params)"
  "listSavedFlows api remote = (\<lambda>tr params. makeRequest api remote tr ''/list_saved_items'' GET params)"
  "listWorkbooks api remote = (\<lambda>tr params. makeRequest api remote tr ''/list_workbooks'' GET params)"
  "retrieveInputSchema api remote = (\<lambda>tr params. makeRequest api remote tr ''/get_inputs'' GET params)"
  "uploadFile api remote = (\<lambda>tr params. makeRequest api remote tr ''/upload_file'' POST params)"
  "uploadMultipleFiles api remote = (\<lambda>tr params. makeRequest api remote tr ''/upload_files'' POST params)"
  "downloadFile api remote = (\<lambda>tr params. makeRequest api remote tr ''/download_file'' POST params)"
  "downloadMultipleFiles api remote = (\<lambda>tr params. makeRequest api remote tr ''/download_files'' POST params)"
  by (intro ext, simp add: startAutomation_def retrieveRunDetails_def listSavedFlows_def
        listWorkbooks_def retrieveInputSchema_def uploadFile_def uploadMultipleFiles_def
        downloadFile_def downloadMultipleFiles_def)+

lemma callTool_try_case:
  assumes "(name, schema, m, e) \<in> set switch_cases"
  shows "callTool_try api remote tr name args =
           tool_case schema (\<lambda>tr params. makeRequest api remote tr e m params) (render_of name) tr args"
  using assms unfolding switch_cases_iff
  by (elim disjE conjE)
     (simp_all add: callTool_try_def render_of_def gateway_methods)

lemma callTool_try_unknown:
  assumes "name \<notin> fst ` set switch_cases"
  shows "callTool_try api remote tr name args =
           (Inr \<lparr>content_text = Some (''Unknown tool: '' @ name), isError = True\<rparr>, tr)"
  using assms by (simp add: switch_cases_def callTool_try_def)

lemma callTool_invalid:
  assumes "(name, schema, m, e) \<in> set switch_cases" and "parse schema args = Inl (ZodError iss)"
  shows "callTool api remote tr name args =
           (\<lparr>content_text = Some (''API error: '' @ error_message (ZodError iss)), isError = True\<rparr>, tr)"
  by (simp add: callTool_def callTool_try_case[OF assms(1)] tool_case_invalid[OF assms(2)])

lemma tool_names: "map fst switch_cases = map fst TOOLS"
  by (simp add: switch_cases_def TOOLS_def)

lemma serve_append:
  "serve api remote tr (xs @ ys) =
     (case serve api remote tr xs of
        (rs1, tr1) \<Rightarrow> (case serve api remote tr1 ys of (rs2, tr2) \<Rightarrow> (rs1 @ rs2, tr2)))"
  by (induction xs arbitrary: tr) (auto split: prod.splits)

lemma serve_length: "length (fst (serve api remote tr calls)) = length calls"
proof (induction calls arbitrary: tr)
  case Nil
  show ?case by simp
next
  case (Cons c cs)
  obtain r tr1 where c: "callTool api remote tr (fst c) (snd c) = (r, tr1)" by force
  obtain rs tr2 where cs: "serve api remote tr1 cs = (rs, tr2)" by force
  from Cons[of tr1] cs have "length rs = length cs" by simp
  with c cs show ?case by simp
qed

lemma callTool_unknown:
  assumes "name \<notin> set (map fst TOOLS)"
  shows "callTool api remote tr name args =
           (\<lparr>content_text = Some (''Unknown tool: '' @ name), isError = True\<rparr>, tr)"
proof -
  from assms have "name \<notin> fst ` set switch_cases"
    using tool_names by (metis set_map)
  then show ?thesis
    by (simp add: callTool_def callTool_try_unknown)
qed

lemma either_or_tools_iff:
  "name \<in> set either_or_tools \<longleftrightarrow>
     name = ''retrieveRunDetails'' \<or> name = ''listSavedFlows'' \<or> name = ''listWorkbooks'' \<or>
     name = ''retrieveInputSchema'' \<or> name = ''uploadFile'' \<or> name = ''uploadMultipleFiles'' \<or>
     name = ''downloadMultipleFiles''"
  unfolding either_or_tools_def by (simp only: set_simps insert_iff empty_iff simp_thms)

lemma either_or_tools_cases:
  assumes "name \<in> set either_or_tools"
  shows "\<exists>shape m e. (name, ZRefine (ZObject shape) user_or_project either_message, m, e) \<in> set switch_cases
           \<and> distinct (map fst shape)
           \<and> (''user_id'', ZOptional ZString) \<in> set shape
           \<and> (''project_id'', ZOptional ZString) \<in> set shape"
proof -
  have *: "\<exists>shape m e. (name, ZRefine (ZObject shape) user_or_project either_message, m, e) \<in> set switch_cases
           \<and> distinct (map fst shape)
           \<and> (''user_id'', ZOptional ZString) \<in> set shape
           \<and> (''project_id'', ZOptional ZString) \<in> set shape"
    if "(name, ZRefine (ZObject shape) user_or_project either_message, m, e) \<in> set switch_cases"
       "distinct (map fst shape)" "(''user_id'', ZOptional ZString) \<in> set shape"
       "(''project_id'', ZOptional ZString) \<in> set shape" for shape m e
    using that by blast
  from assms consider "name = ''retrieveRunDetails''" | "name = ''listSavedFlows''"
    | "name = ''listWorkbooks''" | "name = ''retrieveInputSchema''" | "name = ''uploadFile''"
    | "name = ''uploadMultipleFiles''" | "name = ''downloadMultipleFiles''"
    unfolding either_or_tools_iff by (elim disjE) 
  then show ?thesis
  proof cases
    case 1
    show ?thesis
      by (rule *[of _ GET "''/get_pl_run''"])
         (simp add: 1 switch_cases_iff RetrieveRunDetailsSchema_def, simp_all)
  next
    case 2
    show ?thesis
      by (rule *[of _ GET "''/list_saved_items''"])
         (simp add: 2 switch_cases_iff ListSavedFlowsSchema_def, simp_all)
  next
    case 3
    show ?thesis
      by (rule *[of _ GET "''/list_workbooks''"])
         (simp add: 3 switch_cases_iff ListWorkbooksSchema_def, simp_all)
  next
    case 4
    show ?thesis
      by (rule *[of _ GET "''/get_inputs''"])
         (simp add: 4 switch_cases_iff RetrieveInputSchemaSchema_def, simp_all)
  next
    case 5
    show ?thesis
      by (rule *[of _ POST "''/upload_file''"])
         (simp add: 5 switch_cases_iff UploadFileSchema_def, simp_all)
  next
    case 6
    show ?thesis
      by (rule *[of _ POST "''/upload_files''"])
         (simp add: 6 switch_cases_iff UploadMultipleFilesSchema_def, simp_all)
  next
    case 7
    show ?thesis
      by (rule *[of _ POST "''/download_files''"])
         (simp add: 7 switch_cases_iff DownloadMultipleFilesSchema_def, simp_all)
  qed
qed

section \<open>Calls through the handler\<close>

lemma callTool_valid:
  assumes "(name, schema, m, e) \<in> set switch_cases" and "parse schema args = Inr v"
  shows "callTool api remote tr name args =
           (case makeRequest api remote tr e m v of
              (Inl err, tr') \<Rightarrow>
                (\<lparr>content_text =
                    Some (''API error: '' @
                          (case err of NonError \<Rightarrow> ''Unknown error'' | _ \<Rightarrow> error_message err)),
                  isError = True\<rparr>, tr')
            | (Inr result, tr') \<Rightarrow>
                (\<lparr>content_text = render_of name result, isError = False\<rparr>, tr'))"
  by (simp add: callTool_def callTool_try_case[OF assms(1)] tool_case_valid[OF assms(2)]
           split: prod.splits sum.splits)

lemma render_of_json:
  "name \<noteq> ''downloadFile'' \<Longrightarrow> name \<noteq> ''downloadMultipleFiles'' \<Longrightarrow>
   render_of name (RJson d) = JSON_stringify2 d"
  by (simp add: render_of_def)

lemma required_missing_rejected:
  assumes "(k, ZString) \<in> set shape" and "\<not> has_key args k"
  shows "\<exists>iss. iss \<noteq> [] \<and> zparse (ZObject shape) [] args = (iss, None)
           \<and> ((\<exists>kvs. args = JObj kvs) \<longrightarrow>
                 InvalidType ''string'' ''undefined'' [JStr k] ''Required'' \<in> set iss)
           \<and> ((\<forall>kvs. args \<noteq> JObj kvs) \<longrightarrow> iss = [invalid_type ''object'' args []])"
proof (cases "\<exists>kvs. args = JObj kvs")
  case True
  then obtain kvs where a: "args = JObj kvs" by blast
  from assms(2) have u: "get_prop (JObj kvs) k = JUndefined"
    unfolding a by (rule not_has_key_undefined)
  have f: "zparse ZString ([] @ [JStr k]) (get_prop (JObj kvs) k)
             = ([InvalidType ''string'' ''undefined'' [JStr k] ''Required''], None)"
    unfolding u by (simp add: zparse_ZString invalid_type_def)
  from zparse_object_abort[OF assms(1), of "[]" kvs] f
  obtain iss where "zparse (ZObject shape) [] (JObj kvs) = (iss, None)"
    and "InvalidType ''string'' ''undefined'' [JStr k] ''Required'' \<in> set iss"
    by (auto simp del: get_prop.simps)
  moreover from this have "iss \<noteq> []" by auto
  ultimately show ?thesis unfolding a by blast
next
  case False
  then show ?thesis by (simp add: zparse_object_not_object)
qed

lemma parse_object_aborted:
  "zparse (ZObject shape) [] args = (iss, None) \<Longrightarrow> parse (ZObject shape) args = Inl (ZodError iss)"
  by (simp add: parse_def)

lemma either_message_shown:
  "str_includes (error_message (ZodError [Custom either_message []])) either_message"
  by (simp add: either_message_def JSON_stringify2_def QuoteJSONString_def quote_char_def)

lemma either_or_call_rejected:
  assumes "name \<in> set either_or_tools" and "\<not> user_or_project args"
  shows "\<exists>schema m e iss.
           (name, schema, m, e) \<in> set switch_cases \<and> iss \<noteq> [] \<and>
           parse schema args = Inl (ZodError iss) \<and>
           callTool api remote tr name args =
             (\<lparr>content_text = Some (''API error: '' @ error_message (ZodError iss)),
               isError = True\<rparr>, tr) \<and>
           (\<forall>inputSchema. map_of TOOLS name = Some inputSchema \<and> conforms inputSchema args \<longrightarrow>
              iss = [Custom either_message []] \<and>
              str_includes (error_message (ZodError iss)) either_message)"
proof -
  from either_or_tools_cases[OF assms(1)] obtain shape m e where
    sc: "(name, ZRefine (ZObject shape) user_or_project either_message, m, e) \<in> set switch_cases"
    and d: "distinct (map fst shape)"
    and u: "(''user_id'', ZOptional ZString) \<in> set shape"
    and p: "(''project_id'', ZOptional ZString) \<in> set shape"
    by blast
  from either_or_rejects[OF d u p assms(2)] obtain iss where
    iss: "iss \<noteq> []"
      "parse (ZRefine (ZObject shape) user_or_project either_message) args = Inl (ZodError iss)"
      "(\<exists>x. zparse (ZObject shape) [] args = ([], Some x)) \<longrightarrow> iss = [Custom either_message []]"
    by blast
  have "iss = [Custom either_message []] \<and> str_includes (error_message (ZodError iss)) either_message"
    if "map_of TOOLS name = Some js" "conforms js args" for js
  proof -
    from conforming_valid[OF sc that] have "\<exists>x. zparse (ZObject shape) [] args = ([], Some x)"
      by simp
    with iss(3) have "iss = [Custom either_message []]" by blast
    then show ?thesis using either_message_shown by simp
  qed
  with callTool_invalid[OF sc iss(2)] sc iss(1,2) show ?thesis by blast
qed

lemma switch_cases_name_schema:
  assumes "(name, schema, m, e) \<in> set switch_cases" and "(name, schema', m', e') \<in> set switch_cases"
  shows "schema' = schema \<and> m' = m \<and> e' = e"
  using assms unfolding switch_cases_iff
  by (elim disjE conjE) simp_all

lemma routing_table_case:
  assumes "(name, m, path) \<in> set routing_table"
  shows "\<exists>schema. (name, schema, m, path) \<in> set switch_cases"
proof -
  have "(name, m, path) \<in> set (map (\<lambda>c. (fst c, fst (snd (snd c)), snd (snd (snd c)))) switch_cases)"
    using assms by (simp add: routing_table_def switch_cases_def)
  then obtain c where c: "c \<in> set switch_cases"
    and e: "(name, m, path) = (fst c, fst (snd (snd c)), snd (snd (snd c)))"
    unfolding set_map by (rule imageE)
  obtain n s m' p where "c = (n, s, m', p)" by (cases c) auto
  with c e have "(name, s, m, path) \<in> set switch_cases" by simp
  then show ?thesis ..
qed

lemma not_either_or_case:
  assumes "(name, schema, m, e) \<in> set switch_cases" and "name \<notin> set either_or_tools"
  shows "m = POST \<and> (\<exists>shape. schema = ZObject shape)"
  using assms unfolding switch_cases_iff either_or_tools_iff
  by (elim disjE conjE) (simp_all add: StartAutomationSchema_def DownloadFileSchema_def)

lemma parse_object_valid:
  "zparse (ZObject shape) [] args = ([], Some x) \<Longrightarrow> parse (ZObject shape) args = Inr x"
  by (simp add: parse_def)

lemma conforming_call_parsed:
  assumes sc: "(name, schema, m, e) \<in> set switch_cases"
    and t: "map_of TOOLS name = Some js" and c: "conforms js args"
    and eo: "name \<in> set either_or_tools \<longrightarrow> user_or_project args"
  shows "\<exists>kvs. parse schema args = Inr (JObj kvs) \<and> (m = GET \<longrightarrow> user_or_project (JObj kvs))"
proof -
  from conforming_valid[OF sc t c] obtain x where x: "zparse (object_of schema) [] args = ([], Some x)"
    by blast
  show ?thesis
  proof (cases "name \<in> set either_or_tools")
    case True
    from either_or_tools_cases[OF True] obtain shape m' e' where
      sc': "(name, ZRefine (ZObject shape) user_or_project either_message, m', e') \<in> set switch_cases"
      and d: "distinct (map fst shape)"
      and u: "(''user_id'', ZOptional ZString) \<in> set shape"
      and p: "(''project_id'', ZOptional ZString) \<in> set shape"
      by blast
    from switch_cases_name_schema[OF sc sc']
    have s: "schema = ZRefine (ZObject shape) user_or_project either_message" by simp
    from x have z: "zparse (ZObject shape) [] args = ([], Some x)" unfolding s by simp
    from True eo have "user_or_project args" by simp
    from either_or_accepts[OF d u p this z] z s show ?thesis
      using zparse_object_result_object by blast
  next
    case False
    from not_either_or_case[OF sc False] obtain shape where s: "schema = ZObject shape" and m: "m = POST"
      by blast
    from x have z: "zparse (ZObject shape) [] args = ([], Some x)" unfolding s by simp
    from parse_object_valid[OF z] z s m show ?thesis
      using zparse_object_result_object by fastforce
  qed
qed

lemma callTool_valid_trace:
  assumes "(name, schema, m, e) \<in> set switch_cases" and "parse schema args = Inr v"
  shows "\<exists>rest. snd (callTool api remote tr name args) = tr @ Fetch (build_request api e m v) # rest
           \<and> (\<forall>r. Fetch r \<notin> set rest)"
proof -
  from makeRequest_trace[of api remote tr e m v] obtain rest where
    r: "snd (makeRequest api remote tr e m v) = tr @ Fetch (build_request api e m v) # rest"
       "rest = [] \<or> rest = [ReadJson] \<or> rest = [ReadArrayBuffer]"
    by blast
  have "snd (callTool api remote tr name args) = snd (makeRequest api remote tr e m v)"
    by (simp add: callTool_valid[OF assms] split: prod.splits sum.splits)
  with r show ?thesis by auto
qed

lemma build_request_url:
  assumes "m = GET \<longrightarrow> user_or_project (JObj kvs)"
  shows "req_url (build_request api e m (JObj kvs)) =
           baseUrl api @ e @
             (if m = GET then ''?'' @ URLSearchParams_toString (query_params (JObj kvs)) else [])"
proof (cases m)
  case GET
  with assms have "URLSearchParams_toString (query_params (JObj kvs)) \<noteq> []"
    using user_or_project_query by blast
  with GET show ?thesis by (simp add: build_request_GET)
next
  case POST
  then show ?thesis by (simp add: build_request_POST)
qed

lemma query_params_member:
  "(k, s) \<in> set (query_params v) \<longleftrightarrow>
     (\<exists>x. (k, x) \<in> set (Object_entries v) \<and> x \<noteq> JUndefined \<and> x \<noteq> JNull \<and> s = String_js x)"
  by (auto simp: query_params_def image_iff)

lemma get_prop_distinct:
  "distinct (map fst kvs) \<Longrightarrow> (k, x) \<in> set kvs \<Longrightarrow> get_prop (JObj kvs) k = x"
  by simp

lemma get_prop_defined_member:
  "get_prop (JObj kvs) k = x \<Longrightarrow> x \<noteq> JUndefined \<Longrightarrow> (k, x) \<in> set kvs"
  by (auto split: option.splits dest: map_of_SomeD)

lemma get_case_shape:
  assumes "(name, schema, GET, e) \<in> set switch_cases"
  shows "\<exists>shape. schema = ZRefine (ZObject shape) user_or_project either_message
           \<and> distinct (map fst shape)
           \<and> (\<forall>ks \<in> set shape. snd ks = ZString \<or> snd ks = ZOptional ZString)"
  using assms unfolding switch_cases_iff
  by (elim disjE conjE)
     (simp_all add: RetrieveRunDetailsSchema_def ListSavedFlowsSchema_def ListWorkbooksSchema_def
        RetrieveInputSchemaSchema_def)

lemma parse_refine_valid:
  assumes "parse (ZRefine s chk msg) args = Inr v"
  shows "zparse s [] args = ([], Some v) \<and> chk v"
  using assms by (auto simp: parse_refine split: prod.splits option.splits if_splits)

lemma validated_strings_query:
  assumes z: "zparse (ZObject shape) p args = (iss, Some v)"
    and d: "distinct (map fst shape)"
    and flat: "\<forall>ks \<in> set shape. snd ks = ZString \<or> snd ks = ZOptional ZString"
  shows "(k, s) \<in> set (query_params v) \<longleftrightarrow> k \<in> set (map fst shape) \<and> get_prop args k = JStr s"
proof -
  let ?f = "\<lambda>ks. snd (zparse (snd ks) (p @ [JStr (fst ks)]) (get_prop args (fst ks)))"
  let ?P = "\<lambda>kx. snd kx \<noteq> JUndefined \<or> has_key args (fst kx)"
  from z obtain kvs vals where
    vals: "map ?f shape = map Some vals"
    and v: "v = JObj (filter ?P (zip (map fst shape) vals))"
    by (rule zparse_object_SomeD)
  have len: "length vals = length shape"
    using arg_cong[OF vals, of length] by simp
  let ?kvs = "filter ?P (zip (map fst shape) vals)"
  have "distinct (map fst (zip (map fst shape) vals))"
    using d len by (simp add: map_fst_zip)
  then have dk: "distinct (map fst ?kvs)"
    by (rule distinct_map_filter)
  have keys: "k' \<in> set (map fst shape)" if "(k', x) \<in> set ?kvs" for k' x
  proof -
    from that have "(k', x) \<in> set (zip (map fst shape) vals)" by simp
    then show ?thesis by (rule set_zip_leftD)
  qed
  have field: "get_prop v k' = get_prop args k' \<and> (get_prop args k' = JUndefined \<or> is_string (get_prop args k'))"
    if "k' \<in> set (map fst shape)" for k'
  proof -
    from that obtain sch where m: "(k', sch) \<in> set shape" by auto
    with flat have "sch = ZString \<or> sch = ZOptional ZString" by force
    then show ?thesis
    proof
      assume "sch = ZString"
      with m have m': "(k', ZString) \<in> set shape" by simp
      from zparse_object_string_field[OF z d m'] show ?thesis by simp
    next
      assume "sch = ZOptional ZString"
      with m have m': "(k', ZOptional ZString) \<in> set shape" by simp
      from zparse_object_optional_string_field[OF z d m'] show ?thesis by simp
    qed
  qed
  show ?thesis
  proof
    assume "(k, s) \<in> set (query_params v)"
    then obtain x where x: "(k, x) \<in> set ?kvs" "x \<noteq> JUndefined" "s = String_js x"
      unfolding query_params_member v Object_entries.simps by blast
    from keys[OF x(1)] have k: "k \<in> set (map fst shape)" .
    from get_prop_distinct[OF dk x(1)] have "get_prop v k = x" unfolding v .
    with field[OF k] x(2) have "get_prop args k = x" "is_string x" by auto
    then obtain s' where "x = JStr s'" by (cases x) auto
    with x(3) \<open>get_prop args k = x\<close> k show "k \<in> set (map fst shape) \<and> get_prop args k = JStr s"
      by simp
  next
    assume a: "k \<in> set (map fst shape) \<and> get_prop args k = JStr s"
    with field[of k] have "get_prop (JObj ?kvs) k = JStr s" unfolding v by simp
    then have "(k, JStr s) \<in> set ?kvs"
      by (rule get_prop_defined_member) simp
    then have "\<exists>x. (k, x) \<in> set ?kvs \<and> x \<noteq> JUndefined \<and> x \<noteq> JNull \<and> s = String_js x"
      by (intro exI[of _ "JStr s"]) simp
    then show "(k, s) \<in> set (query_params v)"
      unfolding query_params_member v Object_entries.simps .
  qed
qed

section \<open>Example calls\<close>

lemma parse_listSavedFlows_u1:
  "parse ListSavedFlowsSchema (JObj [(''user_id'', JStr ''u1'')]) = Inr (JObj [(''user_id'', JStr ''u1'')])"
  by (simp add: parse_def ListSavedFlowsSchema_def zparse.simps user_or_project_def js_or_def)


lemma listSavedFlows_case: "(''listSavedFlows'', ListSavedFlowsSchema, GET, ''/list_saved_items'') \<in> set switch_cases"
  by (simp add: switch_cases_iff)


lemma ok_404: "\<not> ok not_found" by (simp add: ok_def not_found_def)

lemma ok_json_ok: "ok json_ok" by (simp add: ok_def json_ok_def)


lemma is_json_json_ok: "is_json_response json_ok"
  by (simp add: is_json_response_def json_ok_def)


lemma ok_json_ok_capitals: "ok json_ok_capitals" by (simp add: ok_def json_ok_capitals_def)

lemma is_json_json_ok_capitals: "\<not> is_json_response json_ok_capitals"
  by (simp add: is_json_response_def json_ok_capitals_def)

lemma ok_json_ok_numbers: "ok json_ok_numbers" by (simp add: ok_def json_ok_numbers_def)

lemma is_json_json_ok_numbers: "is_json_response json_ok_numbers"
  by (simp add: is_json_response_def json_ok_numbers_def)

lemma json_doc_numbers_document: "json_doc numbers_document"
  by (simp add: numbers_document_def)

text \<open>Numbers as \<^verbatim>\<open>JSON.stringify\<close> prints them: \<^verbatim>\<open>1e21\<close>, \<^verbatim>\<open>1.5\<close>,
  \<^verbatim>\<open>12345678901234567168\<close> (the double of digits \<open>12345678901234567\<close> and exponent 3),
  \<^verbatim>\<open>-0.000001\<close>, \<^verbatim>\<open>1.5e-7\<close>, \<^verbatim>\<open>-0\<close>, \<^verbatim>\<open>Infinity\<close> and \<^verbatim>\<open>NaN\<close>.\<close>

lemma replicate_pred: "0 < n \<Longrightarrow> replicate n x = x # replicate (n - 1) x"
  by (cases n) simp_all

lemma numbers_as_printed:
  "JSON_stringify (JArr [JNum (Finite False 1 21), JNum (Finite False 15 (- 1)),
                         JNum (Finite False 12345678901234567 3), JNum (Finite True 1 (- 6)),
                         JNum (Finite False 15 (- 8)), JNum (Finite True 0 0),
                         JNum (Infinite False), JNum NaN])
     = Some ''[1e+21,1.5,12345678901234567000,-0.000001,1.5e-7,0,null,null]''"
  by (simp add: JSON_stringify_def layout_def show_nat.simps replicate_pred)

lemma retrieveRunDetails_case:
  "(''retrieveRunDetails'', RetrieveRunDetailsSchema, GET, ''/get_pl_run'') \<in> set switch_cases"
  by (simp add: switch_cases_iff)

lemma retrieveRunDetails_either_or: "''retrieveRunDetails'' \<in> set either_or_tools"
  by (simp add: either_or_tools_iff)

lemma show_nat_404: "show_nat 404 = ''404''"
  by (simp add: show_nat.simps)

lemma listSavedFlows_either_or: "''listSavedFlows'' \<in> set either_or_tools"
  by (simp add: either_or_tools_iff)

lemma TOOLS_listSavedFlows: "map_of TOOLS ''listSavedFlows'' = Some listSavedFlows_inputSchema"
  by (simp add: TOOLS_def)

lemma retrieveRunDetails_row: "(''retrieveRunDetails'', GET, ''/get_pl_run'') \<in> set routing_table"
  by (simp add: routing_table_def)

lemma TOOLS_retrieveRunDetails:
  "map_of TOOLS ''retrieveRunDetails'' = Some retrieveRunDetails_inputSchema"
  by (simp add: TOOLS_def)

lemma urlencode_user_id: "urlencode ''user_id'' = ''user_id''"
  by (simp add: urlencode_def urlencode_char_def)

lemma urlencode_u1: "urlencode ''u1'' = ''u1''"
  by (simp add: urlencode_def urlencode_char_def)

lemma startAutomation_case: "(''startAutomation'', StartAutomationSchema, POST, ''/start_pipeline'') \<in> set switch_cases"
  by (simp add: switch_cases_iff)

section \<open>The claims\<close>

text \<open>
  C1.  For each row (tool, method, path) of the routing table of the specification: a call
  whose arguments conform to the tool's \<^verbatim>\<open>inputSchema\<close> (every required field present,
  every declared field that is present of its declared type) and, for the seven tools with
  the either/or constraint, satisfy the refinement \<^verbatim>\<open>data.user_id || data.project_id\<close>,
  passes validation, and the handler issues exactly one request, with that method, to the
  base URL followed by that path (followed, for GET, by the query string).
\<close>

theorem conforming_call_routed:
  assumes "(name, m, path) \<in> set routing_table"
    and "map_of TOOLS name = Some inputSchema"
    and "conforms inputSchema args"
    and "name \<in> set either_or_tools \<longrightarrow> user_or_project args"
  shows "\<exists>schema v rest.
           (name, schema, m, path) \<in> set switch_cases \<and>
           parse schema args = Inr v \<and>
           snd (callTool api remote tr name args) = tr @ Fetch (build_request api path m v) # rest \<and>
           (\<forall>r. Fetch r \<notin> set rest) \<and>
           req_method (build_request api path m v) = m \<and>
           req_url (build_request api path m v) =
             baseUrl api @ path @
               (if m = GET then ''?'' @ URLSearchParams_toString (query_params v) else [])"
proof -
  from routing_table_case[OF assms(1)] obtain schema where
    sc: "(name, schema, m, path) \<in> set switch_cases" by blast
  from conforming_call_parsed[OF sc assms(2,3,4)] obtain kvs where
    p: "parse schema args = Inr (JObj kvs)" and g: "m = GET \<longrightarrow> user_or_project (JObj kvs)"
    by blast
  from callTool_valid_trace[OF sc p, of api remote tr] obtain rest where
    t: "snd (callTool api remote tr name args) = tr @ Fetch (build_request api path m (JObj kvs)) # rest"
       "\<forall>r. Fetch r \<notin> set rest"
    by blast
  from sc p t build_request_url[OF g, of api path] show ?thesis
    by (intro exI[of _ schema] exI[of _ "JObj kvs"] exI[of _ rest]) simp
qed

theorem conforming_call_routed_witness:
  "(''retrieveRunDetails'', GET, ''/get_pl_run'') \<in> set routing_table
   \<and> conforms retrieveRunDetails_inputSchema
         (JObj [(''run_id'', JStr ''run789''), (''user_id'', JStr ''user123'')])
   \<and> user_or_project (JObj [(''run_id'', JStr ''run789''), (''user_id'', JStr ''user123'')])
   \<and> (\<exists>schema v rest.
           (''retrieveRunDetails'', schema, GET, ''/get_pl_run'') \<in> set switch_cases \<and>
           parse schema (JObj [(''run_id'', JStr ''run789''), (''user_id'', JStr ''user123'')]) = Inr v \<and>
           snd (callTool example_api remote_json_ok [] ''retrieveRunDetails''
                  (JObj [(''run_id'', JStr ''run789''), (''user_id'', JStr ''user123'')]))
             = Fetch (build_request example_api ''/get_pl_run'' GET v) # rest \<and>
           (\<forall>r. Fetch r \<notin> set rest) \<and>
           req_method (build_request example_api ''/get_pl_run'' GET v) = GET \<and>
           req_url (build_request example_api ''/get_pl_run'' GET v) =
             ''https://api.gumloop.com/api/v1/get_pl_run?'' @ URLSearchParams_toString (query_params v))"
proof -
  let ?args = "JObj [(''run_id'', JStr ''run789''), (''user_id'', JStr ''user123'')]"
  have c: "conforms retrieveRunDetails_inputSchema ?args"
    by (simp add: retrieveRunDetails_inputSchema_def)
  have u: "user_or_project ?args"
    by (simp add: user_or_project_def js_or_def)
  then have u': "''retrieveRunDetails'' \<in> set either_or_tools \<longrightarrow> user_or_project ?args" ..
  from conforming_call_routed[OF retrieveRunDetails_row TOOLS_retrieveRunDetails c u',
         of example_api remote_json_ok "[]"]
       retrieveRunDetails_row c u
  show ?thesis by (simp add: example_api_def)
qed

text \<open>
  C1 as it is stated asks only that the required fields are present and the either/or
  constraint holds.  A \<^verbatim>\<open>startAutomation\<close> call with both required fields, given as
  strings, and \<^verbatim>\<open>project_id: null\<close> meets that (the tool has no either/or constraint),
  but \<^verbatim>\<open>z.string().optional()\<close> does not accept \<^verbatim>\<open>null\<close>: validation fails and no
  request is issued.
\<close>

theorem required_fields_present_not_enough:
  "has_key (JObj [(''user_id'', JStr ''user123''), (''saved_item_id'', JStr ''flow456''),
                  (''project_id'', JNull)]) ''user_id''
   \<and> has_key (JObj [(''user_id'', JStr ''user123''), (''saved_item_id'', JStr ''flow456''),
                  (''project_id'', JNull)]) ''saved_item_id''
   \<and> ''startAutomation'' \<notin> set either_or_tools
   \<and> parse StartAutomationSchema
         (JObj [(''user_id'', JStr ''user123''), (''saved_item_id'', JStr ''flow456''),
                (''project_id'', JNull)])
       = Inl (ZodError [InvalidType ''string'' ''null'' [JStr ''project_id'']
                          ''Expected string, received null''])
   \<and> callTool example_api remote_json_ok [] ''startAutomation''
         (JObj [(''user_id'', JStr ''user123''), (''saved_item_id'', JStr ''flow456''),
                (''project_id'', JNull)])
       = (\<lparr>content_text =
              Some (''API error: '' @
                    error_message (ZodError [InvalidType ''string'' ''null'' [JStr ''project_id'']
                                               ''Expected string, received null''])),
            isError = True\<rparr>, [])"
proof -
  let ?args = "JObj [(''user_id'', JStr ''user123''), (''saved_item_id'', JStr ''flow456''),
                     (''project_id'', JNull)]"
  have p: "parse StartAutomationSchema ?args
             = Inl (ZodError [InvalidType ''string'' ''null'' [JStr ''project_id'']
                                ''Expected string, received null''])"
    by (simp add: parse_def StartAutomationSchema_def zparse.simps invalid_type_def)
  have e: "''startAutomation'' \<notin> set either_or_tools"
    by (simp add: either_or_tools_iff)
  from callTool_invalid[OF startAutomation_case p, of example_api remote_json_ok "[]"] p e
  show ?thesis by simp
qed

text \<open>
  C2.  For each of the seven tools with the either/or constraint, a call whose arguments have
  neither \<^verbatim>\<open>user_id\<close> nor \<^verbatim>\<open>project_id\<close> fails validation with a \<open>ZodError\<close>; the
  handler returns the error-flagged result with its message, and the trace is unchanged: no
  request is issued.  When the arguments otherwise conform to the tool's
  \<^verbatim>\<open>inputSchema\<close>, the error holds exactly the issue of the either/or refinement, and its
  message contains "Either user_id or project_id is required".
\<close>

theorem either_or_omitted_rejected:
  assumes "name \<in> set either_or_tools"
    and "\<not> has_key args ''user_id''" and "\<not> has_key args ''project_id''"
  shows "\<exists>schema m e iss.
           (name, schema, m, e) \<in> set switch_cases \<and> iss \<noteq> [] \<and>
           parse schema args = Inl (ZodError iss) \<and>
           callTool api remote tr name args =
             (\<lparr>content_text = Some (''API error: '' @ error_message (ZodError iss)),
               isError = True\<rparr>, tr) \<and>
           (\<forall>inputSchema. map_of TOOLS name = Some inputSchema \<and> conforms inputSchema args \<longrightarrow>
              iss = [Custom either_message []] \<and>
              str_includes (error_message (ZodError iss)) either_message)"
proof -
  from assms(2,3) have "\<not> user_or_project args"
    by (simp add: user_or_project_def js_or_def not_has_key_undefined)
  with assms(1) show ?thesis by (rule either_or_call_rejected)
qed

theorem either_or_omitted_rejected_witness:
  "''listSavedFlows'' \<in> set either_or_tools
   \<and> \<not> has_key (JObj []) ''user_id'' \<and> \<not> has_key (JObj []) ''project_id''
   \<and> conforms listSavedFlows_inputSchema (JObj [])
   \<and> parse ListSavedFlowsSchema (JObj []) = Inl (ZodError [Custom either_message []])
   \<and> callTool example_api remote_json_ok [] ''listSavedFlows'' (JObj []) =
        (\<lparr>content_text = Some (''API error: '' @ error_message (ZodError [Custom either_message []])),
          isError = True\<rparr>, [])"
proof -
  have h: "\<not> has_key (JObj []) ''user_id''" "\<not> has_key (JObj []) ''project_id''" by simp_all
  have c: "conforms listSavedFlows_inputSchema (JObj [])"
    by (simp add: listSavedFlows_inputSchema_def)
  from either_or_omitted_rejected[OF listSavedFlows_either_or h,
         of example_api remote_json_ok "[]"]
  obtain schema m e iss where
    r: "(''listSavedFlows'', schema, m, e) \<in> set switch_cases"
       "parse schema (JObj []) = Inl (ZodError iss)"
       "callTool example_api remote_json_ok [] ''listSavedFlows'' (JObj []) =
          (\<lparr>content_text = Some (''API error: '' @ error_message (ZodError iss)), isError = True\<rparr>, [])"
       "\<forall>inputSchema. map_of TOOLS ''listSavedFlows'' = Some inputSchema \<and> conforms inputSchema (JObj []) \<longrightarrow>
              iss = [Custom either_message []] \<and>
              str_includes (error_message (ZodError iss)) either_message"
    by blast
  from r(4) TOOLS_listSavedFlows c have i: "iss = [Custom either_message []]" by blast
  from switch_cases_name_schema[OF listSavedFlows_case r(1)] have "schema = ListSavedFlowsSchema"
    by simp
  with r(2,3) i h c listSavedFlows_either_or show ?thesis by simp
qed

text \<open>
  C2 as it is stated has the error name the either/or constraint in every such call.  A
  \<^verbatim>\<open>retrieveRunDetails\<close> call with no argument at all omits both \<^verbatim>\<open>user_id\<close> and
  \<^verbatim>\<open>project_id\<close>, and \<^verbatim>\<open>run_id\<close> as well: the object schema reports the missing
  \<^verbatim>\<open>run_id\<close> and aborts, and a refinement does not run on an aborted value.  The error holds
  the one issue "Required" at \<^verbatim>\<open>run_id\<close>, and its message does not contain "Either
  user_id or project_id is required".
\<close>

theorem missing_field_hides_either_or_issue:
  "''retrieveRunDetails'' \<in> set either_or_tools
   \<and> \<not> has_key (JObj []) ''user_id'' \<and> \<not> has_key (JObj []) ''project_id''
   \<and> parse RetrieveRunDetailsSchema (JObj [])
       = Inl (ZodError [InvalidType ''string'' ''undefined'' [JStr ''run_id''] ''Required''])
   \<and> \<not> str_includes
          (error_message (ZodError [InvalidType ''string'' ''undefined'' [JStr ''run_id''] ''Required'']))
          either_message
   \<and> callTool example_api remote_json_ok [] ''retrieveRunDetails'' (JObj [])
       = (\<lparr>content_text =
              Some (''API error: '' @
                    error_message (ZodError [InvalidType ''string'' ''undefined'' [JStr ''run_id'']
                                               ''Required''])),
            isError = True\<rparr>, [])"
proof -
  have p: "parse RetrieveRunDetailsSchema (JObj [])
             = Inl (ZodError [InvalidType ''string'' ''undefined'' [JStr ''run_id''] ''Required''])"
    by (simp add: parse_def RetrieveRunDetailsSchema_def zparse.simps invalid_type_def)
  have m: "\<not> str_includes
          (error_message (ZodError [InvalidType ''string'' ''undefined'' [JStr ''run_id''] ''Required'']))
          either_message"
    by (simp add: JSON_stringify2_def QuoteJSONString_def quote_char_def either_message_def)
  from callTool_invalid[OF retrieveRunDetails_case p, of example_api remote_json_ok "[]"]
       p m retrieveRunDetails_either_or
  show ?thesis by simp
qed

text \<open>
  C3.  A \<^verbatim>\<open>startAutomation\<close> call that omits \<^verbatim>\<open>user_id\<close> or \<^verbatim>\<open>saved_item_id\<close>, and a
  \<^verbatim>\<open>downloadFile\<close> call that omits \<^verbatim>\<open>file_name\<close>, \<^verbatim>\<open>run_id\<close> or \<^verbatim>\<open>saved_item_id\<close>,
  fails validation with a \<open>ZodError\<close>, which for an argument object holds the issue
  "Required" at the path of the omitted field; the handler returns the error-flagged result
  with its message and the trace is unchanged (no request was issued).
\<close>

theorem missing_required_field_rejected:
  assumes "(name = ''startAutomation'' \<and> schema = StartAutomationSchema
              \<and> k \<in> {''user_id'', ''saved_item_id''})
         \<or> (name = ''downloadFile'' \<and> schema = DownloadFileSchema
              \<and> k \<in> {''file_name'', ''run_id'', ''saved_item_id''})"
    and "\<not> has_key args k"
  shows "\<exists>iss. iss \<noteq> [] \<and> parse schema args = Inl (ZodError iss)
           \<and> ((\<exists>kvs. args = JObj kvs) \<longrightarrow>
                 InvalidType ''string'' ''undefined'' [JStr k] ''Required'' \<in> set iss)
           \<and> callTool api remote tr name args =
                (\<lparr>content_text = Some (''API error: '' @ error_message (ZodError iss)),
                  isError = True\<rparr>, tr)"
proof -
  from assms(1) obtain shape m e where sc: "(name, schema, m, e) \<in> set switch_cases"
    and s: "schema = ZObject shape" and k: "(k, ZString) \<in> set shape"
  proof (elim disjE conjE)
    assume "name = ''startAutomation''" "schema = StartAutomationSchema"
      "k \<in> {''user_id'', ''saved_item_id''}"
    then show ?thesis
      by (intro that[of POST "''/start_pipeline''"
            "[(''user_id'', ZString), (''saved_item_id'', ZString),
              (''project_id'', ZOptional ZString),
              (''pipeline_inputs'',
                 ZOptional (ZArray (ZObject [(''input_name'', ZString), (''value'', ZString)])))]"])
         (auto simp: switch_cases_iff StartAutomationSchema_def)
  next
    assume "name = ''downloadFile''" "schema = DownloadFileSchema"
      "k \<in> {''file_name'', ''run_id'', ''saved_item_id''}"
    then show ?thesis
      by (intro that[of POST "''/download_file''"
            "[(''file_name'', ZString), (''run_id'', ZString), (''saved_item_id'', ZString),
              (''user_id'', ZOptional ZString), (''project_id'', ZOptional ZString)]"])
         (auto simp: switch_cases_iff DownloadFileSchema_def)
  qed
  from required_missing_rejected[OF k assms(2)] obtain iss where
    iss: "iss \<noteq> []" "zparse (ZObject shape) [] args = (iss, None)"
      "(\<exists>kvs. args = JObj kvs) \<longrightarrow> InvalidType ''string'' ''undefined'' [JStr k] ''Required'' \<in> set iss"
    by blast
  from iss(2) have p: "parse schema args = Inl (ZodError iss)"
    unfolding s by (rule parse_object_aborted)
  from callTool_invalid[OF sc p] iss p show ?thesis by blast
qed

theorem missing_required_field_rejected_witness:
  "\<not> has_key (JObj [(''saved_item_id'', JStr ''flow456'')]) ''user_id''
   \<and> (\<exists>iss. parse StartAutomationSchema (JObj [(''saved_item_id'', JStr ''flow456'')]) = Inl (ZodError iss)
         \<and> InvalidType ''string'' ''undefined'' [JStr ''user_id''] ''Required'' \<in> set iss
         \<and> callTool example_api remote_json_ok [] ''startAutomation''
              (JObj [(''saved_item_id'', JStr ''flow456'')]) =
             (\<lparr>content_text = Some (''API error: '' @ error_message (ZodError iss)),
               isError = True\<rparr>, []))"
proof -
  have h: "\<not> has_key (JObj [(''saved_item_id'', JStr ''flow456'')]) ''user_id''" by simp
  have c: "(''startAutomation'' = ''startAutomation'' \<and> StartAutomationSchema = StartAutomationSchema
              \<and> ''user_id'' \<in> {''user_id'', ''saved_item_id''})
         \<or> (''startAutomation'' = ''downloadFile'' \<and> StartAutomationSchema = DownloadFileSchema
              \<and> ''user_id'' \<in> {''file_name'', ''run_id'', ''saved_item_id''})" by simp
  from missing_required_field_rejected[OF c h, of example_api remote_json_ok "[]"] h
  show ?thesis by blast
qed

text \<open>
  C4.  For each of the four tools routed by GET, when validation has passed with the
  validated arguments \<open>v\<close>: the one request of the call has the URL base, path,
  \<^verbatim>\<open>?\<close> and the serialized query parameters, and parsing that query string gives
  the query parameters back; the query parameters are exactly the
  fields of \<open>v\<close> whose value is neither \<^verbatim>\<open>undefined\<close> nor \<^verbatim>\<open>null\<close>, each with
  its value as a string; and, in terms of the call, they are exactly the declared fields of
  the tool that the arguments give, each with the string given.  A field that is absent is
  not among the query keys.  The witness is the call of \<^verbatim>\<open>listSavedFlows\<close> with only
  \<^verbatim>\<open>user_id = "u1"\<close>: the query is \<^verbatim>\<open>user_id=u1\<close>, without a \<^verbatim>\<open>project_id\<close> key.
\<close>

theorem get_query_holds_present_fields:
  assumes "(name, schema, GET, e) \<in> set switch_cases"
    and "object_of schema = ZObject shape"
    and "parse schema args = Inr v"
  shows "(\<exists>rest. snd (callTool api remote tr name args) = tr @ Fetch (build_request api e GET v) # rest
            \<and> (\<forall>r. Fetch r \<notin> set rest))
       \<and> req_url (build_request api e GET v) =
           baseUrl api @ e @ ''?'' @ URLSearchParams_toString (query_params v)
       \<and> parse_query (URLSearchParams_toString (query_params v)) = query_params v
       \<and> (\<forall>k s. (k, s) \<in> set (query_params v) \<longleftrightarrow>
                  (\<exists>x. (k, x) \<in> set (Object_entries v) \<and> x \<noteq> JUndefined \<and> x \<noteq> JNull
                       \<and> s = String_js x))
       \<and> (\<forall>k s. (k, s) \<in> set (query_params v) \<longleftrightarrow>
                  k \<in> set (map fst shape) \<and> get_prop args k = JStr s)"
proof -
  from get_case_shape[OF assms(1)] obtain shape' where
    s: "schema = ZRefine (ZObject shape') user_or_project either_message"
    and d: "distinct (map fst shape')"
    and flat: "\<forall>ks \<in> set shape'. snd ks = ZString \<or> snd ks = ZOptional ZString"
    by blast
  from assms(2) have sh: "shape' = shape" unfolding s by simp
  from parse_refine_valid[OF assms(3)[unfolded s]]
  have z: "zparse (ZObject shape) [] args = ([], Some v)" and u: "user_or_project v"
    unfolding sh by simp_all
  from zparse_object_result_object[OF z] obtain kvs where v: "v = JObj kvs" by blast
  from u have g: "GET = GET \<longrightarrow> user_or_project (JObj kvs)" unfolding v by simp
  have url: "req_url (build_request api e GET v) =
           baseUrl api @ e @ ''?'' @ URLSearchParams_toString (query_params v)"
    using build_request_url[OF g, of api e] unfolding v by simp
  have q: "\<forall>k s. (k, s) \<in> set (query_params v) \<longleftrightarrow>
                  k \<in> set (map fst shape) \<and> get_prop args k = JStr s"
    using validated_strings_query[OF z d[unfolded sh] flat[unfolded sh]] by blast
  from callTool_valid_trace[OF assms(1,3), of api remote tr] url q query_params_member
    parse_query_toString
  show ?thesis by blast
qed

theorem get_query_holds_present_fields_witness:
  "(''listSavedFlows'', ListSavedFlowsSchema, GET, ''/list_saved_items'') \<in> set switch_cases
   \<and> parse ListSavedFlowsSchema (JObj [(''user_id'', JStr ''u1'')]) = Inr (JObj [(''user_id'', JStr ''u1'')])
   \<and> (\<exists>rest. snd (callTool example_api remote_json_ok [] ''listSavedFlows''
                      (JObj [(''user_id'', JStr ''u1'')]))
               = Fetch (build_request example_api ''/list_saved_items'' GET (JObj [(''user_id'', JStr ''u1'')])) # rest
             \<and> (\<forall>r. Fetch r \<notin> set rest))
   \<and> req_url (build_request example_api ''/list_saved_items'' GET (JObj [(''user_id'', JStr ''u1'')]))
        = ''https://api.gumloop.com/api/v1/list_saved_items?user_id=u1''
   \<and> parse_query ''user_id=u1'' = query_params (JObj [(''user_id'', JStr ''u1'')])
   \<and> (\<forall>s. (''user_id'', s) \<in> set (query_params (JObj [(''user_id'', JStr ''u1'')])) \<longleftrightarrow> s = ''u1'')
   \<and> (\<forall>s. (''project_id'', s) \<notin> set (query_params (JObj [(''user_id'', JStr ''u1'')])))"
proof -
  let ?args = "JObj [(''user_id'', JStr ''u1'')]"
  have o: "object_of ListSavedFlowsSchema =
             ZObject [(''user_id'', ZOptional ZString), (''project_id'', ZOptional ZString)]"
    by (simp add: ListSavedFlowsSchema_def)
  have t: "URLSearchParams_toString (query_params ?args) = ''user_id=u1''"
    by (simp add: query_params_def URLSearchParams_toString_def urlencode_user_id urlencode_u1)
  from get_query_holds_present_fields[OF listSavedFlows_case o parse_listSavedFlows_u1,
         of example_api remote_json_ok "[]"]
       listSavedFlows_case parse_listSavedFlows_u1
  show ?thesis by (simp add: t example_api_def)
qed

text \<open>
  C5.  When validation has passed and the remote response has a failing status (\<^verbatim>\<open>response.ok\<close>
  is false), \<^verbatim>\<open>makeRequest\<close> throws the error whose message carries the status code in
  decimal and the status text, and the handler returns the error-flagged result with that
  message.  The trace holds the one request and no read of the response body.
\<close>

theorem remote_failure_error_result:
  assumes "(name, schema, m, e) \<in> set switch_cases"
    and "parse schema args = Inr v"
    and "remote tr (build_request api e m v) = Inr r"
    and "\<not> ok r"
  shows "makeRequest api remote tr e m v =
           (Inl (Error (''Gumloop API request failed: '' @ show_nat (status r) @ '' - '' @ statusText r)),
            tr @ [Fetch (build_request api e m v)])
       \<and> callTool api remote tr name args =
           (\<lparr>content_text =
               Some (''API error: Gumloop API request failed: '' @ show_nat (status r)
                     @ '' - '' @ statusText r),
             isError = True\<rparr>,
            tr @ [Fetch (build_request api e m v)])"
  by (simp add: callTool_valid[OF assms(1,2)]
        makeRequest_not_ok[where remote=remote and tr=tr, OF assms(3,4)])

theorem remote_failure_error_result_witness:
  "(''listSavedFlows'', ListSavedFlowsSchema, GET, ''/list_saved_items'') \<in> set switch_cases
   \<and> \<not> ok not_found
   \<and> fst (callTool example_api remote_not_found [] ''listSavedFlows''
            (JObj [(''user_id'', JStr ''u1'')])) =
       \<lparr>content_text = Some ''API error: Gumloop API request failed: 404 - Not Found'',
        isError = True\<rparr>"
  using remote_failure_error_result[OF listSavedFlows_case parse_listSavedFlows_u1 _ ok_404,
          of remote_not_found "[]" example_api]
        listSavedFlows_case ok_404
  by (simp add: not_found_def remote_not_found_def show_nat_404)

text \<open>
  C6.  For the seven tools other than the two downloads: when validation has passed, the
  response is ok, its declared content type contains \<^verbatim>\<open>application/json\<close> as the code
  tests it (\<^verbatim>\<open>contentType.includes("application/json")\<close>, letter case included) and
  \<^verbatim>\<open>response.json()\<close> returns the decoded document \<open>d\<close> of the body, the result is not
  error-flagged and its text is \<^verbatim>\<open>JSON.stringify(d, null, 2)\<close>: the document of the
  response body, decoded and encoded again.  The body is read once, as JSON.  That text
  is the same JSON document as \<open>d\<close>: when \<open>d\<close> is a JSON document (its numbers finite,
  no negative zero), the text read by the JSON grammar is \<open>d\<close>.
\<close>

theorem json_response_returned_as_text:
  assumes "(name, schema, m, e) \<in> set switch_cases"
    and "name \<noteq> ''downloadFile''" and "name \<noteq> ''downloadMultipleFiles''"
    and "parse schema args = Inr v"
    and "remote tr (build_request api e m v) = Inr r"
    and "ok r" and "is_json_response r" and "json r = Inr d"
  shows "callTool api remote tr name args =
           (\<lparr>content_text = JSON_stringify2 d, isError = False\<rparr>,
            tr @ [Fetch (build_request api e m v), ReadJson])
       \<and> (json_doc d \<longrightarrow>
            (\<exists>t. content_text (fst (callTool api remote tr name args)) = Some t
                 \<and> read_json t = Some d))"
proof -
  have c: "callTool api remote tr name args =
           (\<lparr>content_text = JSON_stringify2 d, isError = False\<rparr>,
            tr @ [Fetch (build_request api e m v), ReadJson])"
    by (simp add: callTool_valid[OF assms(1,4)]
          makeRequest_json[where remote=remote and tr=tr, OF assms(5,6,7)] assms(8)
          render_of_json[OF assms(2,3)])
  moreover have "\<exists>t. content_text (fst (callTool api remote tr name args)) = Some t
                   \<and> read_json t = Some d" if "json_doc d"
    using read_json_stringify2[OF that] unfolding c by simp
  ultimately show ?thesis by blast
qed

theorem json_response_returned_as_text_witness:
  "(''listSavedFlows'', ListSavedFlowsSchema, GET, ''/list_saved_items'') \<in> set switch_cases
   \<and> ok json_ok_numbers \<and> is_json_response json_ok_numbers
   \<and> json json_ok_numbers = Inr numbers_document
   \<and> json_doc numbers_document
   \<and> fst (callTool example_api remote_json_ok_numbers [] ''listSavedFlows''
            (JObj [(''user_id'', JStr ''u1'')])) =
       \<lparr>content_text = JSON_stringify2 numbers_document, isError = False\<rparr>
   \<and> (\<exists>t. JSON_stringify2 numbers_document = Some t \<and> read_json t = Some numbers_document)"
proof -
  have j: "json json_ok_numbers = Inr numbers_document"
    by (simp add: json_ok_numbers_def)
  have n: "''listSavedFlows'' \<noteq> ''downloadFile''" "''listSavedFlows'' \<noteq> ''downloadMultipleFiles''"
    by simp_all
  have f: "remote_json_ok_numbers [] (build_request example_api ''/list_saved_items'' GET
             (JObj [(''user_id'', JStr ''u1'')])) = Inr json_ok_numbers"
    by (simp add: remote_json_ok_numbers_def)
  note r = json_response_returned_as_text[where remote=remote_json_ok_numbers and tr="[]"
          and api=example_api,
          OF listSavedFlows_case n parse_listSavedFlows_u1 f ok_json_ok_numbers
             is_json_json_ok_numbers j]
  from r have c: "fst (callTool example_api remote_json_ok_numbers [] ''listSavedFlows''
            (JObj [(''user_id'', JStr ''u1'')])) =
       \<lparr>content_text = JSON_stringify2 numbers_document, isError = False\<rparr>"
    by simp
  from r json_doc_numbers_document
  have "\<exists>t. content_text (fst (callTool example_api remote_json_ok_numbers []
            ''listSavedFlows'' (JObj [(''user_id'', JStr ''u1'')]))) = Some t
          \<and> read_json t = Some numbers_document"
    by blast
  then have "\<exists>t. JSON_stringify2 numbers_document = Some t \<and> read_json t = Some numbers_document"
    unfolding c by simp
  with c j json_doc_numbers_document listSavedFlows_case ok_json_ok_numbers
       is_json_json_ok_numbers
  show ?thesis by blast
qed

text \<open>
  C6 as it is stated covers every successful response with a JSON content type.  A
  response that declares \<^verbatim>\<open>Application/JSON\<close> has one (media types are not case
  sensitive), but the test of the code is: the body is read with \<^verbatim>\<open>arrayBuffer()\<close>, not
  decoded, and the text of the result is \<^verbatim>\<open>{}\<close>, the empty object, whatever the
  document of the body.
\<close>

theorem json_content_type_in_capitals_not_decoded:
  "ok json_ok_capitals
   \<and> content_type json_ok_capitals = Some ''Application/JSON''
   \<and> json json_ok_capitals = Inr (JObj [(''saved_items'', JArr [JStr ''flow456''])])
   \<and> callTool example_api remote_json_ok_capitals [] ''listSavedFlows''
         (JObj [(''user_id'', JStr ''u1'')])
       = (\<lparr>content_text = Some ''{}'', isError = False\<rparr>,
          [Fetch (build_request example_api ''/list_saved_items'' GET
                    (JObj [(''user_id'', JStr ''u1'')])),
           ReadArrayBuffer])
   \<and> JSON_stringify2 (JObj [(''saved_items'', JArr [JStr ''flow456''])]) \<noteq> Some ''{}''
   \<and> read_json ''{}'' = Some (JObj [])"
proof -
  have f: "remote_json_ok_capitals [] (build_request example_api ''/list_saved_items'' GET
             (JObj [(''user_id'', JStr ''u1'')])) = Inr json_ok_capitals"
    by (simp add: remote_json_ok_capitals_def)
  have b: "arrayBuffer json_ok_capitals =
             Inr [123, 34, 115, 97, 118, 101, 100, 95, 105, 116, 101, 109, 115, 34, 58,
                  91, 34, 102, 108, 111, 119, 52, 53, 54, 34, 93, 125]"
    by (simp add: json_ok_capitals_def)
  have c: "callTool example_api remote_json_ok_capitals [] ''listSavedFlows''
         (JObj [(''user_id'', JStr ''u1'')])
       = (\<lparr>content_text = Some ''{}'', isError = False\<rparr>,
          [Fetch (build_request example_api ''/list_saved_items'' GET
                    (JObj [(''user_id'', JStr ''u1'')])),
           ReadArrayBuffer])"
    by (simp add: callTool_valid[OF listSavedFlows_case parse_listSavedFlows_u1]
          makeRequest_binary[where remote=remote_json_ok_capitals and tr="[]",
            OF f ok_json_ok_capitals is_json_json_ok_capitals] b render_of_def)
  have s: "JSON_stringify2 (JObj [(''saved_items'', JArr [JStr ''flow456''])]) \<noteq> Some ''{}''"
    by (simp add: JSON_stringify2_def QuoteJSONString_def)
  have e: "read_json ''{}'' = Some (JObj [])"
    by (simp add: read_json_def parse_value_eq skip_ws_def is_ws_def)
  from c s e ok_json_ok_capitals show ?thesis
    by (simp add: json_ok_capitals_def)
qed

text \<open>
  C7.  A call whose tool name is not one of the nine names of \<^verbatim>\<open>TOOLS\<close> returns the
  error-flagged result with the text \<^verbatim>\<open>Unknown tool: \<close> followed by that name, and
  issues no request.  The handler returns a result (nothing is thrown), and in the loop the
  calls before and after it are served as they would be without it: every call of the
  sequence gets its result.
\<close>

theorem unknown_tool_error_result:
  assumes "name \<notin> set (map fst TOOLS)"
  shows "callTool api remote tr name args =
           (\<lparr>content_text = Some (''Unknown tool: '' @ name), isError = True\<rparr>, tr)
       \<and> serve api remote tr (before @ (name, args) # after) =
           (case serve api remote tr before of
              (rs1, tr1) \<Rightarrow>
                (case serve api remote tr1 after of
                   (rs2, tr2) \<Rightarrow>
                     (rs1 @ \<lparr>content_text = Some (''Unknown tool: '' @ name), isError = True\<rparr> # rs2,
                      tr2)))
       \<and> length (fst (serve api remote tr (before @ (name, args) # after)))
           = length before + 1 + length after"
proof (intro conjI)
  show u: "callTool api remote tr name args =
           (\<lparr>content_text = Some (''Unknown tool: '' @ name), isError = True\<rparr>, tr)" for tr
    by (rule callTool_unknown[OF assms])
  show "serve api remote tr (before @ (name, args) # after) =
           (case serve api remote tr before of
              (rs1, tr1) \<Rightarrow>
                (case serve api remote tr1 after of
                   (rs2, tr2) \<Rightarrow>
                     (rs1 @ \<lparr>content_text = Some (''Unknown tool: '' @ name), isError = True\<rparr> # rs2,
                      tr2)))"
    by (simp add: serve_append u split: prod.splits)
  show "length (fst (serve api remote tr (before @ (name, args) # after)))
           = length before + 1 + length after"
    by (simp only: serve_length) simp
qed

theorem unknown_tool_error_result_witness:
  "''frobnicate'' \<notin> set (map fst TOOLS)
   \<and> callTool example_api remote_json_ok [] ''frobnicate'' (JObj []) =
       (\<lparr>content_text = Some ''Unknown tool: frobnicate'', isError = True\<rparr>, [])
   \<and> fst (serve example_api remote_not_found []
            [(''frobnicate'', JObj []), (''listSavedFlows'', JObj [(''user_id'', JStr ''u1'')])]) =
       [\<lparr>content_text = Some ''Unknown tool: frobnicate'', isError = True\<rparr>,
        \<lparr>content_text = Some ''API error: Gumloop API request failed: 404 - Not Found'',
         isError = True\<rparr>]"
proof -
  have h: "''frobnicate'' \<notin> set (map fst TOOLS)" by (simp add: TOOLS_def)
  have l: "callTool example_api remote_not_found [] ''listSavedFlows'' (JObj [(''user_id'', JStr ''u1'')]) =
           (\<lparr>content_text = Some ''API error: Gumloop API request failed: 404 - Not Found'',
             isError = True\<rparr>,
            [Fetch (build_request example_api ''/list_saved_items'' GET (JObj [(''user_id'', JStr ''u1'')]))])"
    by (simp add: callTool_valid[OF listSavedFlows_case parse_listSavedFlows_u1]
          makeRequest_not_ok[where remote=remote_not_found and tr="[]" and r=not_found, OF _ ok_404]
          remote_not_found_def not_found_def show_nat_404)
  from unknown_tool_error_result[OF h, of example_api remote_json_ok "[]" "JObj []" "[]" "[]"]
       unknown_tool_error_result[OF h, of example_api remote_not_found "[]" "JObj []" "[]"
          "[(''listSavedFlows'', JObj [(''user_id'', JStr ''u1'')])]"]
       h l
  show ?thesis by simp
qed



text \<open>
  C9.  If \<^verbatim>\<open>GUMLOOP_API_KEY\<close> is absent from the environment at startup, constructing the
  gateway raises the configuration error, and \<^verbatim>\<open>main()\<close> ends with the error written to
  standard error, exit status 1, and no gateway serving calls.
\<close>

theorem missing_credential_fails_startup:
  assumes "env ''GUMLOOP_API_KEY'' = None"
  shows "GumloopAPI_new env = Inl (Error ''GUMLOOP_API_KEY environment variable is required'')
       \<and> main env connect =
           \<lparr>stderr = [[LStr ''Fatal error in main():'',
                       LExn (Error ''GUMLOOP_API_KEY environment variable is required'')]],
            exit_code = Some 1, serving = None\<rparr>"
  using assms by (simp add: GumloopAPI_new_def main_def)

theorem missing_credential_fails_startup_witness:
  "(Map.empty :: string \<rightharpoonup> string) ''GUMLOOP_API_KEY'' = None
   \<and> GumloopAPI_new Map.empty = Inl (Error ''GUMLOOP_API_KEY environment variable is required'')
   \<and> exit_code (main Map.empty None) = Some 1
   \<and> serving (main Map.empty None) = None"
  using missing_credential_fails_startup[of Map.empty None] by simp



end
